theory Spec2Isabelle
  imports Main "HOL-Library.Word"
begin

unbundle bit_operations_syntax

section \<open>The intrusive binary min heap (src/heap-inl.h)\<close>

subsection \<open>Memory model\<close>

text \<open>
  A non-NULL \<^verbatim>\<open>struct heap_node*\<close> is an address; NULL is \<open>None\<close>.  The heap nodes live
  in a store that maps every address to the three links of the node at that address.
  \<^verbatim>\<open>struct heap\<close> holds \<^verbatim>\<open>min\<close> and \<^verbatim>\<open>nelts\<close> (an \<^verbatim>\<open>unsigned int\<close>, 32 bits wide); the
  record below carries the node store along with these two fields, so that one value
  describes everything the heap functions read and write.
\<close>

type_synonym addr = nat

record heap_node =
  left :: "addr option"
  right :: "addr option"
  parent :: "addr option"

record heap =
  min_h :: "addr option"
  nelts :: "32 word"
  mem :: "addr \<Rightarrow> heap_node"

type_synonym heap_compare_fn = "addr \<Rightarrow> addr \<Rightarrow> bool"

text \<open>Field assignments \<^verbatim>\<open>a->left = v\<close>, \<^verbatim>\<open>a->right = v\<close>, \<^verbatim>\<open>a->parent = v\<close>.\<close>

definition set_left :: "(addr \<Rightarrow> heap_node) \<Rightarrow> addr \<Rightarrow> addr option \<Rightarrow> addr \<Rightarrow> heap_node" where
  "set_left m a v = m(a := (m a)\<lparr>left := v\<rparr>)"

definition set_right :: "(addr \<Rightarrow> heap_node) \<Rightarrow> addr \<Rightarrow> addr option \<Rightarrow> addr \<Rightarrow> heap_node" where
  "set_right m a v = m(a := (m a)\<lparr>right := v\<rparr>)"

definition set_parent :: "(addr \<Rightarrow> heap_node) \<Rightarrow> addr \<Rightarrow> addr option \<Rightarrow> addr \<Rightarrow> heap_node" where
  "set_parent m a v = m(a := (m a)\<lparr>parent := v\<rparr>)"

text \<open>
  A \<^verbatim>\<open>struct heap_node**\<close> as the code forms it: \<^verbatim>\<open>&heap->min\<close>, \<^verbatim>\<open>&a->left\<close> or
  \<^verbatim>\<open>&a->right\<close>.
\<close>

datatype loc = Min_loc | Left_loc addr | Right_loc addr

fun load :: "heap \<Rightarrow> loc \<Rightarrow> addr option" where
  "load h Min_loc = min_h h"
| "load h (Left_loc a) = left (mem h a)"
| "load h (Right_loc a) = right (mem h a)"

fun store :: "heap \<Rightarrow> loc \<Rightarrow> addr option \<Rightarrow> heap" where
  "store h Min_loc v = h\<lparr>min_h := v\<rparr>"
| "store h (Left_loc a) v = h\<lparr>mem := set_left (mem h) a v\<rparr>"
| "store h (Right_loc a) v = h\<lparr>mem := set_right (mem h) a v\<rparr>"

subsection \<open>heap_init, heap_min\<close>

definition heap_init :: "heap \<Rightarrow> heap" where
  "heap_init h = h\<lparr>min_h := None, nelts := 0\<rparr>"

definition heap_min :: "heap \<Rightarrow> addr option" where
  "heap_min h = min_h h"

subsection \<open>heap_node_swap\<close>

text \<open>
  The statements of \<^verbatim>\<open>heap_node_swap(heap, parent, child)\<close> one by one, on the node
  store.  Both arguments are non-NULL at every call site, and every other pointer is
  tested against NULL before it is dereferenced, so the function is total.
\<close>

definition heap_node_swap :: "heap \<Rightarrow> addr \<Rightarrow> addr \<Rightarrow> heap" where
  "heap_node_swap h p c =
    (let t = mem h p;
         m1 = (mem h)(p := mem h c);
         m2 = m1(c := t);
         m3 = set_parent m2 p (Some c);
         m4 = (if left (m3 c) = Some c then set_left m3 c (Some p) else set_right m3 c (Some p));
         sibling = (if left (m3 c) = Some c then right (m4 c) else left (m4 c));
         m5 = (case sibling of None \<Rightarrow> m4 | Some s \<Rightarrow> set_parent m4 s (Some c));
         m6 = (case left (m5 p) of None \<Rightarrow> m5 | Some l \<Rightarrow> set_parent m5 l (Some p));
         m7 = (case right (m6 p) of None \<Rightarrow> m6 | Some r \<Rightarrow> set_parent m6 r (Some p))
     in (case parent (m7 c) of
           None \<Rightarrow> h\<lparr>min_h := Some c, mem := m7\<rparr>
         | Some g \<Rightarrow>
             if left (m7 g) = Some p then h\<lparr>mem := set_left m7 g (Some c)\<rparr>
             else h\<lparr>mem := set_right m7 g (Some c)\<rparr>))"

subsection \<open>The path from the root to the n-th node\<close>

text \<open>
  \<^verbatim>\<open>for (k = 0, n = ...; n >= 2; k += 1, n /= 2) path = (path << 1) | (n & 1);\<close>
  on \<^verbatim>\<open>unsigned int\<close>.  The result is the pair \<open>(path, k)\<close>.
\<close>

function heap_path :: "32 word \<Rightarrow> 32 word \<Rightarrow> 32 word \<Rightarrow> 32 word \<times> 32 word" where
  "heap_path path k n =
     (if 2 \<le> n then heap_path (push_bit 1 path OR (n AND 1)) (k + 1) (n div 2)
      else (path, k))"
  by pat_completeness auto
termination
proof (relation "measure (\<lambda>(path, k, n). unat n)")
  show "wf (measure (\<lambda>(path, k, n). unat n))" by simp
next
  fix path k n :: "32 word"
  assume "2 \<le> n"
  then have "2 \<le> unat n" by (simp add: word_le_nat_alt)
  then have "unat n div 2 < unat n" by simp
  then show "((push_bit 1 path OR (n AND 1), k + 1, n div 2), (path, k, n))
      \<in> measure (\<lambda>(path, k, n). unat n)"
    by (simp add: unat_div)
qed

declare heap_path.simps [simp del]

text \<open>
  The traversal of \<^verbatim>\<open>heap_insert\<close>: \<^verbatim>\<open>parent\<close> and \<^verbatim>\<open>child\<close> are pointers to link fields.
  Forming \<^verbatim>\<open>&(*child)->right\<close> when \<^verbatim>\<open>*child\<close> is NULL is undefined: \<open>None\<close>.
\<close>

function insert_walk :: "heap \<Rightarrow> loc \<Rightarrow> loc \<Rightarrow> 32 word \<Rightarrow> 32 word \<Rightarrow> (loc \<times> loc) option" where
  "insert_walk h parent_p child_p path k =
     (if 0 < k then
        (case load h child_p of
           None \<Rightarrow> None
         | Some c \<Rightarrow>
             insert_walk h child_p
               (if path AND 1 \<noteq> 0 then Right_loc c else Left_loc c)
               (drop_bit 1 path) (k - 1))
      else Some (parent_p, child_p))"
  by pat_completeness auto
termination
proof (relation "measure (\<lambda>(h, parent_p, child_p, path, k). unat k)")
  show "wf (measure (\<lambda>(h, parent_p, child_p, path, k). unat k))" by simp
next
  fix h :: heap and parent_p child_p :: loc and path k :: "32 word" and c :: addr
  assume "0 < k"
  then have "unat (k - 1) < unat k"
    by (metis word_gt_0 unat_minus_one diff_less unat_gt_0 zero_less_one)
  then show "((h, child_p, if path AND 1 \<noteq> 0 then Right_loc c else Left_loc c,
        drop_bit 1 path, k - 1), (h, parent_p, child_p, path, k))
      \<in> measure (\<lambda>(h, parent_p, child_p, path, k). unat k)"
    by simp
qed

declare insert_walk.simps [simp del]

text \<open>The traversal of \<^verbatim>\<open>heap_remove\<close>, with the single pointer \<^verbatim>\<open>max\<close>.\<close>

function remove_walk :: "heap \<Rightarrow> loc \<Rightarrow> 32 word \<Rightarrow> 32 word \<Rightarrow> loc option" where
  "remove_walk h max_p path k =
     (if 0 < k then
        (case load h max_p of
           None \<Rightarrow> None
         | Some c \<Rightarrow>
             remove_walk h (if path AND 1 \<noteq> 0 then Right_loc c else Left_loc c)
               (drop_bit 1 path) (k - 1))
      else Some max_p)"
  by pat_completeness auto
termination
proof (relation "measure (\<lambda>(h, max_p, path, k). unat k)")
  show "wf (measure (\<lambda>(h, max_p, path, k). unat k))" by simp
next
  fix h :: heap and max_p :: loc and path k :: "32 word" and c :: addr
  assume "0 < k"
  then have "unat (k - 1) < unat k"
    by (metis word_gt_0 unat_minus_one diff_less unat_gt_0 zero_less_one)
  then show "((h, if path AND 1 \<noteq> 0 then Right_loc c else Left_loc c,
        drop_bit 1 path, k - 1), (h, max_p, path, k))
      \<in> measure (\<lambda>(h, max_p, path, k). unat k)"
    by simp
qed

declare remove_walk.simps [simp del]

subsection \<open>The repair loops\<close>

text \<open>
  \<^verbatim>\<open>while (x->parent != NULL && less_than(x, x->parent)) heap_node_swap(heap, x->parent, x);\<close>
  The loop closes both \<^verbatim>\<open>heap_insert\<close> (on \<^verbatim>\<open>newnode\<close>) and \<^verbatim>\<open>heap_remove\<close> (on
  \<^verbatim>\<open>child\<close>).  On a store whose links are cyclic it need not end: not returning is \<open>None\<close>.
\<close>

partial_function (option) sift_up :: "heap_compare_fn \<Rightarrow> heap \<Rightarrow> addr \<Rightarrow> heap option" where
  "sift_up lt h x =
     (case parent (mem h x) of
        None \<Rightarrow> Some h
      | Some p \<Rightarrow>
          if lt x p then sift_up lt (heap_node_swap h p x) x
          else Some h)"

declare sift_up.simps [code]

text \<open>The \<^verbatim>\<open>for (;;)\<close> loop of \<^verbatim>\<open>heap_remove\<close> that walks \<^verbatim>\<open>child\<close> down.\<close>

definition smallest_of :: "heap_compare_fn \<Rightarrow> heap \<Rightarrow> addr \<Rightarrow> addr" where
  "smallest_of lt h child =
     (let smallest = child;
          smallest = (case left (mem h child) of
                        None \<Rightarrow> smallest
                      | Some l \<Rightarrow> if lt l smallest then l else smallest);
          smallest = (case right (mem h child) of
                        None \<Rightarrow> smallest
                      | Some r \<Rightarrow> if lt r smallest then r else smallest)
      in smallest)"

partial_function (option) sift_down :: "heap_compare_fn \<Rightarrow> heap \<Rightarrow> addr \<Rightarrow> heap option" where
  "sift_down lt h child =
     (let smallest = smallest_of lt h child
      in if smallest = child then Some h
         else sift_down lt (heap_node_swap h child smallest) child)"

declare sift_down.simps [code]

subsection \<open>heap_insert, heap_remove\<close>

definition heap_insert :: "heap_compare_fn \<Rightarrow> heap \<Rightarrow> addr \<Rightarrow> heap option" where
  "heap_insert lt h newnode =
     (let h1 = h\<lparr>mem := (mem h)(newnode := \<lparr>left = None, right = None, parent = None\<rparr>)\<rparr>;
          (path, k) = heap_path 0 0 (1 + nelts h1)
      in case insert_walk h1 Min_loc Min_loc path k of
           None \<Rightarrow> None
         | Some (parent_p, child_p) \<Rightarrow>
             (let h2 = h1\<lparr>mem := set_parent (mem h1) newnode (load h1 parent_p)\<rparr>;
                  h3 = store h2 child_p (Some newnode);
                  h4 = h3\<lparr>nelts := nelts h3 + 1\<rparr>
              in sift_up lt h4 newnode))"

text \<open>
  The splice of \<^verbatim>\<open>heap_remove\<close>: the statements from \<^verbatim>\<open>child->left = node->left\<close> up to
  the assignment that redirects the link to \<^verbatim>\<open>node\<close> in its parent (or \<^verbatim>\<open>heap->min\<close>).
\<close>

definition remove_splice :: "heap \<Rightarrow> addr \<Rightarrow> addr \<Rightarrow> heap" where
  "remove_splice h node child =
     (let m1 = set_left (mem h) child (left (mem h node));
          m2 = set_right m1 child (right (m1 node));
          m3 = set_parent m2 child (parent (m2 node));
          m4 = (case left (m3 child) of None \<Rightarrow> m3 | Some l \<Rightarrow> set_parent m3 l (Some child));
          m5 = (case right (m4 child) of None \<Rightarrow> m4 | Some r \<Rightarrow> set_parent m4 r (Some child))
      in (case parent (m5 node) of
            None \<Rightarrow> h\<lparr>min_h := Some child, mem := m5\<rparr>
          | Some g \<Rightarrow>
              if left (m5 g) = Some node then h\<lparr>mem := set_left m5 g (Some child)\<rparr>
              else h\<lparr>mem := set_right m5 g (Some child)\<rparr>))"

definition heap_remove :: "heap_compare_fn \<Rightarrow> heap \<Rightarrow> addr \<Rightarrow> heap option" where
  "heap_remove lt h node =
     (if nelts h = 0 then Some h
      else
        (let (path, k) = heap_path 0 0 (nelts h)
         in case remove_walk h Min_loc path k of
              None \<Rightarrow> None
            | Some max_p \<Rightarrow>
                (let h1 = h\<lparr>nelts := nelts h - 1\<rparr>;
                     child_opt = load h1 max_p;
                     h2 = store h1 max_p None
                 in case child_opt of
                      None \<Rightarrow> None
                    | Some child \<Rightarrow>
                        if child = node then
                          (if Some child = min_h h2 then Some (h2\<lparr>min_h := None\<rparr>)
                           else Some h2)
                        else
                          (case sift_down lt (remove_splice h2 node child) child of
                             None \<Rightarrow> None
                           | Some h3 \<Rightarrow> sift_up lt h3 child))))"

section \<open>Timers (src/timer.c)\<close>

subsection \<open>Handles and the loop\<close>

text \<open>
  \<^verbatim>\<open>uv_timer_t\<close> and \<^verbatim>\<open>uv_loop_t\<close> are declared in uv.h; the fields below are the ones
  timer.c reads and writes.  \<^verbatim>\<open>timeout\<close>, \<^verbatim>\<open>repeat\<close>, \<^verbatim>\<open>start_id\<close>, \<^verbatim>\<open>loop->time\<close> and
  \<^verbatim>\<open>loop->timer_counter\<close> are \<^verbatim>\<open>uint64_t\<close>.  A callback pointer is an identifier
  (NULL is \<open>None\<close>); what the callback with that identifier does is given by a table
  that \<open>uv__run_timers\<close> takes as a parameter.  The \<^verbatim>\<open>heap_node\<close> embedded in the handle
  at address \<open>a\<close> is the node at address \<open>a\<close> of the heap's node store, so
  \<^verbatim>\<open>container_of\<close> is the identity on addresses.

  Modelled from the spec: the handle flags behind \<^verbatim>\<open>uv__is_active\<close>, \<^verbatim>\<open>uv__is_closing\<close>,
  \<^verbatim>\<open>uv__handle_start\<close> and \<^verbatim>\<open>uv__handle_stop\<close> (macros of uv-common.h) are the two
  booleans \<open>active\<close> ("an active flag indicating current heap membership") and
  \<open>closing\<close> ("already being torn down").
\<close>

type_synonym uv_timer_cb = nat

record uv_timer =
  timer_cb :: "uv_timer_cb option"
  timeout :: "64 word"
  repeat :: "64 word"
  start_id :: "64 word"
  active :: bool
  closing :: bool

record 'u uv_loop =
  time :: "64 word"
  timer_counter :: "64 word"
  timer_heap :: heap
  handles :: "addr \<Rightarrow> uv_timer"
  user :: 'u

text \<open>
  Modelled from the spec: \<^verbatim>\<open>UV_EINVAL\<close> (uv-errno.h), the invalid-argument error code, a
  negative errno value; and \<^verbatim>\<open>INT_MAX\<close> (limits.h) for a 32-bit \<^verbatim>\<open>int\<close>.
\<close>

definition UV_EINVAL :: int where
  "UV_EINVAL = - 22"

definition INT_MAX :: "64 word" where
  "INT_MAX = 2147483647"

definition uv__is_active :: "'u uv_loop \<Rightarrow> addr \<Rightarrow> bool" where
  "uv__is_active l handle = active (handles l handle)"

definition uv__is_closing :: "'u uv_loop \<Rightarrow> addr \<Rightarrow> bool" where
  "uv__is_closing l handle = closing (handles l handle)"

definition uv__handle_start :: "'u uv_loop \<Rightarrow> addr \<Rightarrow> 'u uv_loop" where
  "uv__handle_start l handle =
     l\<lparr>handles := (handles l)(handle := (handles l handle)\<lparr>active := True\<rparr>)\<rparr>"

definition uv__handle_stop :: "'u uv_loop \<Rightarrow> addr \<Rightarrow> 'u uv_loop" where
  "uv__handle_stop l handle =
     l\<lparr>handles := (handles l)(handle := (handles l handle)\<lparr>active := False\<rparr>)\<rparr>"

subsection \<open>timer_less_than\<close>

definition timer_less_than :: "(addr \<Rightarrow> uv_timer) \<Rightarrow> addr \<Rightarrow> addr \<Rightarrow> bool" where
  "timer_less_than hs ha hb =
     (let a = hs ha; b = hs hb
      in if timeout a < timeout b then True
         else if timeout b < timeout a then False
         else start_id a < start_id b)"

subsection \<open>uv_timer_init, uv_timer_start, uv_timer_stop, uv_timer_again\<close>

text \<open>
  Modelled from the spec: \<^verbatim>\<open>uv__handle_init\<close> leaves the handle inactive and not closing
  ("created inactive").
\<close>

definition uv_timer_init :: "'u uv_loop \<Rightarrow> addr \<Rightarrow> int \<times> 'u uv_loop" where
  "uv_timer_init l handle =
     (0, l\<lparr>handles := (handles l)(handle := (handles l handle)
            \<lparr>timer_cb := None, timeout := 0, repeat := 0, active := False, closing := False\<rparr>)\<rparr>)"

text \<open>
  The functions return the C return value together with the loop.  \<open>None\<close> is a call of
  \<^verbatim>\<open>heap_insert\<close> or \<^verbatim>\<open>heap_remove\<close> that does not return.
\<close>

definition uv_timer_stop :: "'u uv_loop \<Rightarrow> addr \<Rightarrow> (int \<times> 'u uv_loop) option" where
  "uv_timer_stop l handle =
     (if \<not> uv__is_active l handle then Some (0, l)
      else
        (case heap_remove (timer_less_than (handles l)) (timer_heap l) handle of
           None \<Rightarrow> None
         | Some h' \<Rightarrow> Some (0, uv__handle_stop (l\<lparr>timer_heap := h'\<rparr>) handle)))"

definition uv_timer_start ::
  "'u uv_loop \<Rightarrow> addr \<Rightarrow> uv_timer_cb option \<Rightarrow> 64 word \<Rightarrow> 64 word \<Rightarrow> (int \<times> 'u uv_loop) option" where
  "uv_timer_start l handle cb timeout_arg repeat_arg =
     (if uv__is_closing l handle \<or> cb = None then Some (UV_EINVAL, l)
      else
        (case (if uv__is_active l handle then uv_timer_stop l handle else Some (0, l)) of
           None \<Rightarrow> None
         | Some (_, l1) \<Rightarrow>
             (let clamped_timeout = time l1 + timeout_arg;
                  clamped_timeout = (if clamped_timeout < timeout_arg then - 1 else clamped_timeout);
                  l2 = l1\<lparr>handles := (handles l1)(handle := (handles l1 handle)
                         \<lparr>timer_cb := cb, timeout := clamped_timeout, repeat := repeat_arg\<rparr>)\<rparr>;
                  l3 = l2\<lparr>handles := (handles l2)(handle := (handles l2 handle)
                         \<lparr>start_id := timer_counter l2\<rparr>),
                         timer_counter := timer_counter l2 + 1\<rparr>
              in case heap_insert (timer_less_than (handles l3)) (timer_heap l3) handle of
                   None \<Rightarrow> None
                 | Some h' \<Rightarrow> Some (0, uv__handle_start (l3\<lparr>timer_heap := h'\<rparr>) handle))))"

definition uv_timer_again :: "'u uv_loop \<Rightarrow> addr \<Rightarrow> (int \<times> 'u uv_loop) option" where
  "uv_timer_again l handle =
     (if timer_cb (handles l handle) = None then Some (UV_EINVAL, l)
      else if repeat (handles l handle) \<noteq> 0 then
        (case uv_timer_stop l handle of
           None \<Rightarrow> None
         | Some (_, l1) \<Rightarrow>
             (case uv_timer_start l1 handle (timer_cb (handles l1 handle))
                     (repeat (handles l1 handle)) (repeat (handles l1 handle)) of
                None \<Rightarrow> None
              | Some (_, l2) \<Rightarrow> Some (0, l2)))
      else Some (0, l))"

subsection \<open>The accessors\<close>

definition uv_timer_set_repeat :: "'u uv_loop \<Rightarrow> addr \<Rightarrow> 64 word \<Rightarrow> 'u uv_loop" where
  "uv_timer_set_repeat l handle repeat_arg =
     l\<lparr>handles := (handles l)(handle := (handles l handle)\<lparr>repeat := repeat_arg\<rparr>)\<rparr>"

definition uv_timer_get_repeat :: "'u uv_loop \<Rightarrow> addr \<Rightarrow> 64 word" where
  "uv_timer_get_repeat l handle = repeat (handles l handle)"

definition uv_timer_get_due_in :: "'u uv_loop \<Rightarrow> addr \<Rightarrow> 64 word" where
  "uv_timer_get_due_in l handle =
     (if timeout (handles l handle) \<le> time l then 0
      else timeout (handles l handle) - time l)"

subsection \<open>uv__next_timeout, uv__run_timers\<close>

text \<open>
  The result is a C \<^verbatim>\<open>int\<close>: a 32-bit word read as two's complement.  \<^verbatim>\<open>(int) diff\<close>
  keeps the low 32 bits.
\<close>

definition uv__next_timeout :: "'u uv_loop \<Rightarrow> 32 word" where
  "uv__next_timeout l =
     (case heap_min (timer_heap l) of
        None \<Rightarrow> - 1
      | Some handle \<Rightarrow>
          if timeout (handles l handle) \<le> time l then 0
          else
            (let diff = timeout (handles l handle) - time l;
                 diff = (if INT_MAX < diff then INT_MAX else diff)
             in ucast diff))"

text \<open>
  \<open>cbs\<close> interprets the callback pointers: \<open>cbs cb handle l\<close> is the loop after the call
  \<^verbatim>\<open>cb(handle)\<close>, or \<open>None\<close> when the callback does not return.  Calling through a NULL
  \<^verbatim>\<open>timer_cb\<close> is undefined: \<open>None\<close>.  The drain need not end (a callback may keep
  restarting a due timer): not returning is \<open>None\<close>.
\<close>

partial_function (option) uv__run_timers ::
  "(uv_timer_cb \<Rightarrow> addr \<Rightarrow> 'u uv_loop \<Rightarrow> 'u uv_loop option) \<Rightarrow> 'u uv_loop \<Rightarrow> 'u uv_loop option" where
  "uv__run_timers cbs l =
     (case heap_min (timer_heap l) of
        None \<Rightarrow> Some l
      | Some handle \<Rightarrow>
          if time l < timeout (handles l handle) then Some l
          else
            (case uv_timer_stop l handle of
               None \<Rightarrow> None
             | Some (_, l1) \<Rightarrow>
                 (case uv_timer_again l1 handle of
                    None \<Rightarrow> None
                  | Some (_, l2) \<Rightarrow>
                      (case timer_cb (handles l2 handle) of
                         None \<Rightarrow> None
                       | Some cb \<Rightarrow>
                           (case cbs cb handle l2 of
                              None \<Rightarrow> None
                            | Some l3 \<Rightarrow> uv__run_timers cbs l3)))))"

declare uv__run_timers.simps [code]

definition uv__timer_close :: "'u uv_loop \<Rightarrow> addr \<Rightarrow> 'u uv_loop option" where
  "uv__timer_close l handle = map_option snd (uv_timer_stop l handle)"

section \<open>Specification: the heap as a sequence in level order\<close>

text \<open>
  A complete binary tree with \<open>n\<close> nodes is the tree whose nodes, numbered in level order
  from 1, are exactly the numbers \<open>1..n\<close>: node \<open>i\<close> has the left child \<open>2 * i\<close>, the
  right child \<open>2 * i + 1\<close> and the parent \<open>i div 2\<close>, each present exactly when the
  number is in \<open>1..n\<close>.  The list \<open>xs\<close> gives the address of every node: the node
  numbered \<open>i\<close> is \<open>nth1 xs i\<close>.
\<close>

definition nth1 :: "'a list \<Rightarrow> nat \<Rightarrow> 'a" where
  "nth1 xs i = xs ! (i - 1)"

definition upd1 :: "'a list \<Rightarrow> nat \<Rightarrow> 'a \<Rightarrow> 'a list" where
  "upd1 xs i v = xs[i - 1 := v]"

definition lk :: "addr list \<Rightarrow> nat \<Rightarrow> addr option" where
  "lk xs j = (if 1 \<le> j \<and> j \<le> length xs then Some (nth1 xs j) else None)"

definition swap1 :: "'a list \<Rightarrow> nat \<Rightarrow> nat \<Rightarrow> 'a list" where
  "swap1 xs i j = upd1 (upd1 xs i (nth1 xs j)) j (nth1 xs i)"

text \<open>
  \<open>heap_shape h xs\<close>: the links of the store and \<^verbatim>\<open>heap->min\<close> are exactly those of the
  complete binary tree whose nodes in level order are \<open>xs\<close>, and \<^verbatim>\<open>nelts\<close> counts them.
\<close>

definition heap_shape :: "heap \<Rightarrow> addr list \<Rightarrow> bool" where
  "heap_shape h xs \<longleftrightarrow>
     distinct xs \<and> length xs < 2 ^ 32 \<and> nelts h = of_nat (length xs) \<and> min_h h = lk xs 1 \<and>
     (\<forall>i \<in> {1..length xs}.
        mem h (nth1 xs i) = \<lparr>left = lk xs (2 * i), right = lk xs (Suc (2 * i)), parent = lk xs (i div 2)\<rparr>)"


text \<open>The left/right choices on the way from the root to the node numbered n, root first.\<close>

function path_bits :: "nat \<Rightarrow> bool list" where
  "path_bits n = (if n < 2 then [] else path_bits (n div 2) @ [odd n])"
  by pat_completeness auto

termination by (relation "measure id") auto

declare path_bits.simps [simp del]

fun walk_list :: "heap \<Rightarrow> loc \<times> loc \<Rightarrow> bool list \<Rightarrow> (loc \<times> loc) option" where
  "walk_list h pc [] = Some pc"
| "walk_list h pc (b # bs) =
     (case load h (snd pc) of
        None \<Rightarrow> None
      | Some c \<Rightarrow> walk_list h (snd pc, if b then Right_loc c else Left_loc c) bs)"

definition dec_path :: "32 word \<Rightarrow> nat \<Rightarrow> bool list" where
  "dec_path path k = map (bit path) [0..<k]"

definition loc_of :: "addr list \<Rightarrow> nat \<Rightarrow> loc" where
  "loc_of xs n = (if n \<le> 1 then Min_loc
                  else if even n then Left_loc (nth1 xs (n div 2)) else Right_loc (nth1 xs (n div 2)))"

lemma length_upd1 [simp]: "length (upd1 xs i v) = length xs"
  by (simp add: upd1_def)

lemma length_swap1 [simp]: "length (swap1 xs i j) = length xs"
  by (simp add: swap1_def)

function sift_up_l :: "heap_compare_fn \<Rightarrow> addr list \<Rightarrow> nat \<Rightarrow> addr list" where
  "sift_up_l lt xs i =
     (if 2 \<le> i \<and> i \<le> length xs \<and> lt (nth1 xs i) (nth1 xs (i div 2))
      then sift_up_l lt (swap1 xs (i div 2) i) (i div 2) else xs)"
  by pat_completeness auto

termination
  by (relation "measure (\<lambda>(lt, xs, i). i)") auto

declare sift_up_l.simps [simp del]

definition smallest_l :: "heap_compare_fn \<Rightarrow> addr list \<Rightarrow> nat \<Rightarrow> nat" where
  "smallest_l lt xs i =
     (let s = i;
          s = (if 2 * i \<le> length xs \<and> lt (nth1 xs (2 * i)) (nth1 xs s) then 2 * i else s);
          s = (if Suc (2 * i) \<le> length xs \<and> lt (nth1 xs (Suc (2 * i))) (nth1 xs s) then Suc (2 * i) else s)
      in s)"

lemma smallest_l_cases:
  "smallest_l lt xs i = i \<or>
   (smallest_l lt xs i = 2 * i \<and> 2 * i \<le> length xs) \<or>
   (smallest_l lt xs i = Suc (2 * i) \<and> Suc (2 * i) \<le> length xs)"
  by (auto simp: smallest_l_def Let_def)

function sift_down_l :: "heap_compare_fn \<Rightarrow> addr list \<Rightarrow> nat \<Rightarrow> addr list \<times> nat" where
  "sift_down_l lt xs i =
     (let s = smallest_l lt xs i
      in if s = i \<or> i = 0 then (xs, i) else sift_down_l lt (swap1 xs i s) s)"
  by pat_completeness auto

termination
proof (relation "measure (\<lambda>(lt, xs, i). length xs - i)")
  show "wf (measure (\<lambda>(lt, xs, i). length xs - i))" by simp
next
  fix lt :: heap_compare_fn and xs :: "addr list" and i s :: nat
  assume "s = smallest_l lt xs i" "\<not> (s = i \<or> i = 0)"
  then have "i < s \<and> s \<le> length xs"
    using smallest_l_cases[of lt xs i] by auto
  then have "length xs - s < length xs - i" by linarith
  then show "((lt, swap1 xs i s, s), (lt, xs, i)) \<in> measure (\<lambda>(lt, xs, i). length xs - i)"
    by simp
qed

declare sift_down_l.simps [simp del]

definition remove_l :: "heap_compare_fn \<Rightarrow> addr list \<Rightarrow> nat \<Rightarrow> addr list" where
  "remove_l lt xs j =
     (let n = length xs; lst = nth1 xs n
      in if j = n then butlast xs
         else (let ys = upd1 (butlast xs) j lst;
                   (zs, k) = sift_down_l lt ys j
               in sift_up_l lt zs k))"

definition strict_weak_order :: "heap_compare_fn \<Rightarrow> bool" where
  "strict_weak_order lt \<longleftrightarrow>
     (\<forall>a. \<not> lt a a) \<and>
     (\<forall>a b c. lt a b \<longrightarrow> lt b c \<longrightarrow> lt a c) \<and>
     (\<forall>a b c. \<not> lt a b \<and> \<not> lt b a \<longrightarrow> \<not> lt b c \<and> \<not> lt c b \<longrightarrow> \<not> lt a c \<and> \<not> lt c a)"

definition precedes :: "heap_compare_fn \<Rightarrow> addr \<Rightarrow> addr \<Rightarrow> bool" where
  "precedes lt a b \<longleftrightarrow> lt a b \<or> (\<not> lt a b \<and> \<not> lt b a)"

definition heap_ordered :: "heap_compare_fn \<Rightarrow> addr list \<Rightarrow> bool" where
  "heap_ordered lt xs \<longleftrightarrow>
     (\<forall>i \<in> {2..length xs}. precedes lt (nth1 xs (i div 2)) (nth1 xs i))"

text \<open>every edge but the one above position i is in order, and the parent of i precedes the children of i\<close>

definition ordered_but_up :: "heap_compare_fn \<Rightarrow> addr list \<Rightarrow> nat \<Rightarrow> bool" where
  "ordered_but_up lt xs i \<longleftrightarrow>
     (\<forall>p k. 1 \<le> p \<longrightarrow> k = 2 * p \<or> k = Suc (2 * p) \<longrightarrow> k \<le> length xs \<longrightarrow> k \<noteq> i \<longrightarrow>
        \<not> lt (nth1 xs k) (nth1 xs p)) \<and>
     (\<forall>g k. 1 \<le> g \<longrightarrow> i = 2 * g \<or> i = Suc (2 * g) \<longrightarrow> k = 2 * i \<or> k = Suc (2 * i) \<longrightarrow>
        k \<le> length xs \<longrightarrow> \<not> lt (nth1 xs k) (nth1 xs g))"

definition ordered_but_at :: "heap_compare_fn \<Rightarrow> addr list \<Rightarrow> nat \<Rightarrow> bool" where
  "ordered_but_at lt xs i \<longleftrightarrow>
     (\<forall>p k. 1 \<le> p \<longrightarrow> k = 2 * p \<or> k = Suc (2 * p) \<longrightarrow> k \<le> length xs \<longrightarrow> k \<noteq> i \<longrightarrow> p \<noteq> i \<longrightarrow>
        \<not> lt (nth1 xs k) (nth1 xs p)) \<and>
     (\<forall>g k. 1 \<le> g \<longrightarrow> i = 2 * g \<or> i = Suc (2 * g) \<longrightarrow> k = 2 * i \<or> k = Suc (2 * i) \<longrightarrow>
        k \<le> length xs \<longrightarrow> \<not> lt (nth1 xs k) (nth1 xs g))"

inductive_set reach :: "heap \<Rightarrow> addr set" for h :: heap where
  reach_min: "min_h h = Some a \<Longrightarrow> a \<in> reach h"
| reach_left: "a \<in> reach h \<Longrightarrow> left (mem h a) = Some b \<Longrightarrow> b \<in> reach h"
| reach_right: "a \<in> reach h \<Longrightarrow> right (mem h a) = Some b \<Longrightarrow> b \<in> reach h"

section \<open>Example states\<close>

text \<open>
  Four timer handles at the addresses 1 to 4, with the deadlines 10, 10, 5 and 20 and the
  start ids 1 to 4; every other address holds a handle with deadline 10.
\<close>

definition handles0 :: "addr \<Rightarrow> uv_timer" where
  "handles0 a =
     \<lparr>timer_cb = None, timeout = (if a = 3 then 5 else if a = 4 then 20 else 10), repeat = 0,
      start_id = of_nat a, active = False, closing = False\<rparr>"

text \<open>A store in which no node has a link, and the empty heap on it.\<close>

definition mem0 :: "addr \<Rightarrow> heap_node" where
  "mem0 a = \<lparr>left = None, right = None, parent = None\<rparr>"

definition heap0 :: heap where
  "heap0 = \<lparr>min_h = None, nelts = 0, mem = mem0\<rparr>"

text \<open>
  A loop at time 5 whose only timer, the handle at address 1, is due at \<open>2 ^ 40\<close>.
\<close>

definition loop_far :: "unit uv_loop" where
  "loop_far =
     \<lparr>time = 5, timer_counter = 1,
      timer_heap = \<lparr>min_h = Some 1, nelts = 1, mem = mem0\<rparr>,
      handles = (\<lambda>a. \<lparr>timer_cb = Some 0, timeout = 1099511627776, repeat = 0, start_id = 0,
                       active = (a = 1), closing = False\<rparr>),
      user = ()\<rparr>"

section \<open>The shape of the heap under heap_node_swap\<close>

lemma nth1_upd1: "1 \<le> i \<Longrightarrow> i \<le> length xs \<Longrightarrow> 1 \<le> j \<Longrightarrow>
    nth1 (upd1 xs i v) j = (if j = i then v else nth1 xs j)"
  by (auto simp: nth1_def upd1_def nth_list_update)

lemma nth1_swap1: "1 \<le> i \<Longrightarrow> i \<le> length xs \<Longrightarrow> 1 \<le> j \<Longrightarrow> j \<le> length xs \<Longrightarrow> 1 \<le> k \<Longrightarrow>
    nth1 (swap1 xs i j) k = (if k = j then nth1 xs i else if k = i then nth1 xs j else nth1 xs k)"
  by (simp add: swap1_def nth1_upd1)

lemma lk_swap1: "1 \<le> i \<Longrightarrow> i \<le> length xs \<Longrightarrow> 1 \<le> j \<Longrightarrow> j \<le> length xs \<Longrightarrow>
    lk (swap1 xs i j) k = (if k = j then Some (nth1 xs i) else if k = i then Some (nth1 xs j) else lk xs k)"
  by (simp add: lk_def nth1_swap1)

lemma nth1_eq_iff: "distinct xs \<Longrightarrow> 1 \<le> i \<Longrightarrow> i \<le> length xs \<Longrightarrow> 1 \<le> j \<Longrightarrow> j \<le> length xs \<Longrightarrow>
    nth1 xs i = nth1 xs j \<longleftrightarrow> i = j"
  by (auto simp: nth1_def nth_eq_iff_index_eq)

lemma set_swap1: "1 \<le> i \<Longrightarrow> i \<le> length xs \<Longrightarrow> 1 \<le> j \<Longrightarrow> j \<le> length xs \<Longrightarrow>
    set (swap1 xs i j) = set xs"
  unfolding swap1_def upd1_def nth1_def
  by (simp add: set_swap)

lemma distinct_swap1: "1 \<le> i \<Longrightarrow> i \<le> length xs \<Longrightarrow> 1 \<le> j \<Longrightarrow> j \<le> length xs \<Longrightarrow>
    distinct (swap1 xs i j) = distinct xs"
  unfolding swap1_def upd1_def nth1_def
  by (simp add: distinct_swap)

lemma heap_shape_mem: "heap_shape h xs \<Longrightarrow> 1 \<le> i \<Longrightarrow> i \<le> length xs \<Longrightarrow>
   mem h (nth1 xs i) = \<lparr>left = lk xs (2 * i), right = lk xs (Suc (2 * i)), parent = lk xs (i div 2)\<rparr>"
  by (simp add: heap_shape_def)


lemma app_set_parent: "set_parent m b v a = (if a = b then (m a)\<lparr>parent := v\<rparr> else m a)"
  by (simp add: set_parent_def)
lemma app_set_left: "set_left m b v a = (if a = b then (m a)\<lparr>left := v\<rparr> else m a)"
  by (simp add: set_left_def)
lemma app_set_right: "set_right m b v a = (if a = b then (m a)\<lparr>right := v\<rparr> else m a)"
  by (simp add: set_right_def)
lemma app_case_parent: "(case ao of None \<Rightarrow> m | Some s \<Rightarrow> set_parent m s v) a =
    (if ao = Some a then (m a)\<lparr>parent := v\<rparr> else m a)"
  by (auto simp: set_parent_def split: option.splits)

lemma lk_eq_Some_iff: "distinct xs \<Longrightarrow> 1 \<le> i \<Longrightarrow> i \<le> length xs \<Longrightarrow>
   (lk xs j = Some (nth1 xs i)) = (j = i)"
  by (auto simp: lk_def nth1_eq_iff)

lemma lk_in: "1 \<le> j \<Longrightarrow> j \<le> length xs \<Longrightarrow> lk xs j = Some (nth1 xs j)"
  by (simp add: lk_def)

lemma lk_out: "j = 0 \<or> length xs < j \<Longrightarrow> lk xs j = None"
  by (auto simp: lk_def)


lemma swap_mem_read:
  assumes PC: "P \<noteq> C"
    and mP: "mem h P = \<lparr>left = pl, right = pr, parent = g\<rparr>"
    and mC: "mem h C = \<lparr>left = cl, right = cr, parent = cp\<rparr>"
    and sib: "sib = (if pl = Some C then pr else pl)"
    and na: "sib \<noteq> Some P" "sib \<noteq> Some C" "cl \<noteq> Some P" "cl \<noteq> Some C"
            "cr \<noteq> Some P" "cr \<noteq> Some C" "g \<noteq> Some P" "g \<noteq> Some C"
  shows swap_mem: "mem (heap_node_swap h P C) a =
    (let base = (if a = P then \<lparr>left = cl, right = cr, parent = Some C\<rparr>
                 else if a = C then \<lparr>left = (if pl = Some C then Some P else pl),
                                      right = (if pl = Some C then pr else Some P), parent = g\<rparr>
                 else mem h a);
         b1 = (if sib = Some a then base\<lparr>parent := Some C\<rparr> else base);
         b2 = (if cl = Some a then b1\<lparr>parent := Some P\<rparr> else b1);
         b3 = (if cr = Some a then b2\<lparr>parent := Some P\<rparr> else b2)
     in if g = Some a then
          (if left (mem h a) = Some P then b3\<lparr>left := Some C\<rparr> else b3\<lparr>right := Some C\<rparr>)
        else b3)"
    and swap_min: "min_h (heap_node_swap h P C) = (if g = None then Some C else min_h h)"
    and swap_nelts: "nelts (heap_node_swap h P C) = nelts h"
proof -
  define m2 where "m2 = (mem h)(P := mem h C, C := mem h P)"
  define m3 where "m3 = set_parent m2 P (Some C)"
  define m4 where "m4 = (if left (m3 C) = Some C then set_left m3 C (Some P) else set_right m3 C (Some P))"
  define sibling where "sibling = (if left (m3 C) = Some C then right (m4 C) else left (m4 C))"
  define m5 where "m5 = (case sibling of None \<Rightarrow> m4 | Some s \<Rightarrow> set_parent m4 s (Some C))"
  define m6 where "m6 = (case left (m5 P) of None \<Rightarrow> m5 | Some l \<Rightarrow> set_parent m5 l (Some P))"
  define m7 where "m7 = (case right (m6 P) of None \<Rightarrow> m6 | Some r \<Rightarrow> set_parent m6 r (Some P))"
  have hs: "heap_node_swap h P C = (case parent (m7 C) of
           None \<Rightarrow> h\<lparr>min_h := Some C, mem := m7\<rparr>
         | Some g \<Rightarrow>
             if left (m7 g) = Some P then h\<lparr>mem := set_left m7 g (Some C)\<rparr>
             else h\<lparr>mem := set_right m7 g (Some C)\<rparr>)"
    unfolding heap_node_swap_def Let_def m7_def m6_def m5_def sibling_def m4_def m3_def m2_def
    by (simp add: PC)
  have m3: "m3 a = (if a = P then \<lparr>left = cl, right = cr, parent = Some C\<rparr>
                 else if a = C then \<lparr>left = pl, right = pr, parent = g\<rparr> else mem h a)" for a
    using PC by (simp add: m3_def m2_def app_set_parent mP mC)
  have m4: "m4 a = (if a = P then \<lparr>left = cl, right = cr, parent = Some C\<rparr>
                 else if a = C then \<lparr>left = (if pl = Some C then Some P else pl),
                                      right = (if pl = Some C then pr else Some P), parent = g\<rparr>
                 else mem h a)" for a
    using PC by (simp add: m4_def m3 app_set_left app_set_right)
  have sb: "sibling = sib"
    using PC by (simp add: sibling_def m3 m4 sib)
  have m5: "m5 a = (if sib = Some a then (m4 a)\<lparr>parent := Some C\<rparr> else m4 a)" for a
    unfolding m5_def sb by (rule app_case_parent)
  have m5P: "left (m5 P) = cl" "right (m5 P) = cr"
    using na by (simp_all add: m5 m4)
  have m6: "m6 a = (if cl = Some a then (m5 a)\<lparr>parent := Some P\<rparr> else m5 a)" for a
    unfolding m6_def m5P by (rule app_case_parent)
  have m6P: "right (m6 P) = cr"
    using na by (simp add: m6 m5P)
  have m7: "m7 a = (if cr = Some a then (m6 a)\<lparr>parent := Some P\<rparr> else m6 a)" for a
    unfolding m7_def m6P by (rule app_case_parent)
  have m7C: "parent (m7 C) = g"
    using na PC by (simp add: m7 m6 m5 m4)
  have m7l: "left (m7 b) = left (m4 b)" for b
    by (simp add: m7 m6 m5)
  show "mem (heap_node_swap h P C) a =
    (let base = (if a = P then \<lparr>left = cl, right = cr, parent = Some C\<rparr>
                 else if a = C then \<lparr>left = (if pl = Some C then Some P else pl),
                                      right = (if pl = Some C then pr else Some P), parent = g\<rparr>
                 else mem h a);
         b1 = (if sib = Some a then base\<lparr>parent := Some C\<rparr> else base);
         b2 = (if cl = Some a then b1\<lparr>parent := Some P\<rparr> else b1);
         b3 = (if cr = Some a then b2\<lparr>parent := Some P\<rparr> else b2)
     in if g = Some a then
          (if left (mem h a) = Some P then b3\<lparr>left := Some C\<rparr> else b3\<lparr>right := Some C\<rparr>)
        else b3)"
  proof (cases g)
    case None
    then show ?thesis
      unfolding hs m7C by (simp add: m7 m6 m5 m4 Let_def)
  next
    case (Some G)
    have G: "G \<noteq> P" "G \<noteq> C" using na Some by auto
    have l7: "left (m7 G) = left (mem h G)" using G by (simp add: m7l m4)
    have hs': "heap_node_swap h P C =
        (if left (mem h G) = Some P then h\<lparr>mem := set_left m7 G (Some C)\<rparr>
         else h\<lparr>mem := set_right m7 G (Some C)\<rparr>)"
      using hs m7C Some l7 by simp
    show ?thesis
      unfolding hs' using Some G na PC
      by (simp add: m7 m6 m5 m4 Let_def app_set_left app_set_right)
  qed
  show "min_h (heap_node_swap h P C) = (if g = None then Some C else min_h h)"
    unfolding hs m7C by (simp split: option.splits)
  show "nelts (heap_node_swap h P C) = nelts h"
    unfolding hs by (simp split: option.splits)
qed



lemma heap_shape_mem2: "heap_shape h xs \<Longrightarrow> 1 \<le> i \<Longrightarrow> i \<le> length xs \<Longrightarrow> i = 2 * j \<or> i = Suc (2 * j) \<Longrightarrow>
   mem h (nth1 xs i) = \<lparr>left = lk xs (2 * i), right = lk xs (Suc (2 * i)), parent = lk xs j\<rparr>"
  by (auto simp add: heap_shape_def)

lemma heap_shapeI:
  assumes "distinct xs" "length xs < 2 ^ 32" "nelts h = of_nat (length xs)" "min_h h = lk xs 1"
    and "\<And>i j. 1 \<le> i \<Longrightarrow> i \<le> length xs \<Longrightarrow> i = 2 * j \<or> i = Suc (2 * j) \<Longrightarrow>
       mem h (nth1 xs i) = \<lparr>left = lk xs (2 * i), right = lk xs (Suc (2 * i)), parent = lk xs j\<rparr>"
  shows "heap_shape h xs"
  unfolding heap_shape_def
proof (intro conjI ballI)
  fix i assume "i \<in> {1..length xs}"
  then have i: "1 \<le> i" "i \<le> length xs" by auto
  have "i = 2 * (i div 2) \<or> i = Suc (2 * (i div 2))" by presburger
  from assms(5)[OF i this]
  show "mem h (nth1 xs i) = \<lparr>left = lk xs (2 * i), right = lk xs (Suc (2 * i)), parent = lk xs (i div 2)\<rparr>" .
qed (use assms in auto)

lemma swap_shape_aux:
  assumes sh: "heap_shape h xs" and c: "c \<le> length xs" and p: "1 \<le> p" "c = 2 * p \<or> c = Suc (2 * p)"
    and q: "p = 2 * q \<or> p = Suc (2 * q)"
  shows "heap_shape (heap_node_swap h (nth1 xs p) (nth1 xs c)) (swap1 xs p c)"
proof -
  let ?P = "nth1 xs p" and ?C = "nth1 xs c"
  let ?h' = "heap_node_swap h ?P ?C"
  let ?xs' = "swap1 xs p c"
  define s where "s = (if c = 2 * p then Suc (2 * p) else 2 * p)"
  have s: "s = 2 * p \<or> s = Suc (2 * p)" "s \<noteq> c" "s \<noteq> p" "c = 2 * p \<or> s = 2 * p"
    using p by (auto simp: s_def)
  have p': "p \<le> length xs" "p < c" "1 \<le> c" using c p by auto
  have d: "distinct xs" using sh by (simp add: heap_shape_def)
  note eqs = nth1_eq_iff[OF d]
  have memP: "mem h ?P = \<lparr>left = lk xs (2 * p), right = lk xs (Suc (2 * p)), parent = lk xs q\<rparr>"
    using heap_shape_mem2[OF sh p(1) p'(1) q] .
  have memC: "mem h ?C = \<lparr>left = lk xs (2 * c), right = lk xs (Suc (2 * c)), parent = lk xs p\<rparr>"
    using heap_shape_mem2[OF sh p'(3) c p(2)] .
  have PC: "?P \<noteq> ?C" using eqs[of p c] p p' c by auto
  have lkP: "lk xs j = Some ?P \<longleftrightarrow> j = p" for j
    using lk_eq_Some_iff[OF d p(1) p'(1)] by simp
  have lkC: "lk xs j = Some ?C \<longleftrightarrow> j = c" for j
    using lk_eq_Some_iff[OF d p'(3) c, of j] by simp
  have sib: "lk xs s = (if lk xs (2 * p) = Some ?C then lk xs (Suc (2 * p)) else lk xs (2 * p))"
    using p by (auto simp: lkC s_def)
  have na: "lk xs s \<noteq> Some ?P" "lk xs s \<noteq> Some ?C"
     "lk xs (2 * c) \<noteq> Some ?P" "lk xs (2 * c) \<noteq> Some ?C"
     "lk xs (Suc (2 * c)) \<noteq> Some ?P" "lk xs (Suc (2 * c)) \<noteq> Some ?C"
     "lk xs q \<noteq> Some ?P" "lk xs q \<noteq> Some ?C"
    using p p' c q s by (auto simp: lkP lkC)
  note rd = swap_mem[OF PC memP memC sib na]
  note rd2 = swap_min[OF PC memP memC sib na] swap_nelts[OF PC memP memC sib na]
  have lks: "lk ?xs' k = (if k = c then Some ?P else if k = p then Some ?C else lk xs k)" for k
    using lk_swap1[of p xs c k] p p' c by simp
  show ?thesis
  proof (rule heap_shapeI)
    show "distinct ?xs'" using d p p' c by (simp add: distinct_swap1)
    show "length ?xs' < 2 ^ 32" using sh by (simp add: heap_shape_def)
    show "nelts ?h' = word_of_nat (length ?xs')" using sh by (simp add: rd2 heap_shape_def)
    have "min_h h = lk xs 1" using sh by (simp add: heap_shape_def)
    moreover have "q = 0 \<longleftrightarrow> p = 1" "lk xs q = None \<longleftrightarrow> q = 0" using q p p' by (auto simp: lk_def)
    moreover have "c \<noteq> 1" using p by linarith
    ultimately show "min_h ?h' = lk ?xs' 1"
      unfolding rd2 lks using p' by (simp add: lk_in)
  next
    fix i j assume i: "1 \<le> i" "i \<le> length ?xs'" and j: "i = 2 * j \<or> i = Suc (2 * j)"
    have i': "i \<le> length xs" using i by simp
    have pc: "2 * p = c \<and> Suc (2 * p) \<noteq> c \<or> 2 * p \<noteq> c \<and> Suc (2 * p) = c" using p by auto
    consider "i = c" | "i = p" | "i \<noteq> c" "i \<noteq> p" by blast
    then show "mem ?h' (nth1 ?xs' i) = \<lparr>left = lk ?xs' (2 * i), right = lk ?xs' (Suc (2 * i)), parent = lk ?xs' j\<rparr>"
    proof cases
      case 1
      have n: "nth1 ?xs' c = ?P" using p p' c by (simp add: nth1_swap1)
      have jp: "j = p" using 1 p j by auto
      have A: "2 * c \<noteq> c" "Suc (2 * c) \<noteq> c" "2 * c \<noteq> p" "Suc (2 * c) \<noteq> p" "p \<noteq> c" "q \<noteq> p" "s \<noteq> p"
        using p q s by auto
      have "mem ?h' (nth1 ?xs' c) = \<lparr>left = lk ?xs' (2 * c), right = lk ?xs' (Suc (2 * c)), parent = lk ?xs' p\<rparr>"
        unfolding n rd lks Let_def by (simp add: na A lkP)
      then show ?thesis using 1 jp by simp
    next
      case 2
      have n: "nth1 ?xs' p = ?C" using p p' c by (simp add: nth1_swap1)
      have jq: "j = q" using 2 j q by auto
      have A: "2 * p \<noteq> p" "Suc (2 * p) \<noteq> p" "q \<noteq> c" "q \<noteq> p"
        using p q by auto
      have "mem ?h' (nth1 ?xs' p) = \<lparr>left = lk ?xs' (2 * p), right = lk ?xs' (Suc (2 * p)), parent = lk ?xs' q\<rparr>"
        unfolding n rd lks Let_def using A PC p(2) s(2,3)
        by (auto simp add: lkP lkC)
      then show ?thesis using 2 jq by simp
    next
      case 3
      have n: "nth1 ?xs' i = nth1 xs i" using 3 p p' c i by (simp add: nth1_swap1)
      have ne: "nth1 xs i \<noteq> ?P" "nth1 xs i \<noteq> ?C" using 3 i p p' c eqs by auto
      have lki: "lk xs j = Some (nth1 xs i) \<longleftrightarrow> j = i" for j
        using lk_eq_Some_iff[OF d i(1) i'] by simp
      note mi = heap_shape_mem2[OF sh i(1) i' j]
      consider (sib) "j = p" | (kid) "j = c" | (gp) "i = q" | (far) "j \<noteq> p" "j \<noteq> c" "i \<noteq> q" by blast
      then show ?thesis
      proof cases
        case sib
        have A: "s = i" "p \<noteq> c" "2 * c \<noteq> i" "Suc (2 * c) \<noteq> i" "q \<noteq> i"
          "2 * i \<noteq> p" "Suc (2 * i) \<noteq> p" "2 * i \<noteq> c" "Suc (2 * i) \<noteq> c"
          using sib 3 p c j q i(1) by (auto simp: s_def)
        have "mem ?h' (nth1 xs i) = \<lparr>left = lk ?xs' (2 * i), right = lk ?xs' (Suc (2 * i)), parent = lk ?xs' p\<rparr>"
          unfolding rd lks mi Let_def 
          by (simp add: lkP lki ne A)
        then show ?thesis using n sib by simp
      next
        case kid
        have A: "s \<noteq> i" "c \<noteq> p" "q \<noteq> i"
          "2 * i \<noteq> p" "Suc (2 * i) \<noteq> p" "2 * i \<noteq> c" "Suc (2 * i) \<noteq> c"
          using kid 3 p c j q i(1) by (auto simp: s_def)
        have B: "2 * c = i \<and> Suc (2 * c) \<noteq> i \<or> 2 * c \<noteq> i \<and> Suc (2 * c) = i"
          using kid j by auto
        have "mem ?h' (nth1 xs i) = \<lparr>left = lk ?xs' (2 * i), right = lk ?xs' (Suc (2 * i)), parent = lk ?xs' c\<rparr>"
          unfolding rd lks mi Let_def using B
          by (elim disjE conjE; simp add: lkP lki ne A)
        then show ?thesis using n kid by simp
      next
        case gp
        have A: "s \<noteq> i" "j \<noteq> p" "j \<noteq> c" "2 * c \<noteq> i" "Suc (2 * c) \<noteq> i"
           "2 * i \<noteq> c" "Suc (2 * i) \<noteq> c" "p \<noteq> c" "Suc p \<noteq> c"
          using gp 3 p c j q i(1) by (auto simp: s_def)
        have B: "2 * i = p \<and> Suc (2 * i) \<noteq> p \<or> 2 * i \<noteq> p \<and> Suc (2 * i) = p"
          using gp q by auto
        have "mem ?h' (nth1 xs i) = \<lparr>left = lk ?xs' (2 * i), right = lk ?xs' (Suc (2 * i)), parent = lk ?xs' j\<rparr>"
          unfolding rd lks mi Let_def gp[symmetric] using B
          by (elim disjE conjE; simp add: lkP lki ne A)
        then show ?thesis using n by simp
      next
        case far
        have A: "s \<noteq> i" "2 * c \<noteq> i" "Suc (2 * c) \<noteq> i" "q \<noteq> i"
          "2 * i \<noteq> p" "Suc (2 * i) \<noteq> p" "2 * i \<noteq> c" "Suc (2 * i) \<noteq> c"
          using far 3 p c j q i(1) by (auto simp: s_def)
        have "mem ?h' (nth1 xs i) = \<lparr>left = lk ?xs' (2 * i), right = lk ?xs' (Suc (2 * i)), parent = lk ?xs' j\<rparr>"
          unfolding rd lks mi Let_def
          by (simp add: lkP lki ne A far)
        then show ?thesis using n by simp
      qed
    qed
  qed
qed


section \<open>The path computed from the element count\<close>

lemma dec_path_0 [simp]: "dec_path path 0 = []"
  by (simp add: dec_path_def)

lemma dec_path_Suc: "dec_path path (Suc k) = bit path 0 # dec_path (drop_bit 1 path) k"
proof -
  have "[0..<Suc k] = 0 # map Suc [0..<k]"
    by (simp add: upt_conv_Cons map_Suc_upt del: upt_Suc)
  then show ?thesis
    by (simp add: dec_path_def bit_drop_bit_eq comp_def del: upt_Suc)
qed

lemma dec_path_push: "k < 32 \<Longrightarrow>
   dec_path (push_bit 1 path OR (n AND 1)) (Suc k) = odd n # dec_path path k"
proof -
  assume k: "k < 32"
  have "[0..<Suc k] = 0 # map Suc [0..<k]"
    by (simp add: upt_conv_Cons map_Suc_upt del: upt_Suc)
  moreover have "bit (push_bit 1 path OR (n AND 1)) 0 = odd n"
    by (simp add: bit_0 even_or_iff even_and_iff)
  moreover have "bit (push_bit 1 path OR (n AND 1)) (Suc j) = bit path j" if "j < k" for j
    using that k by (simp add: bit_or_iff bit_and_iff bit_1_iff mult.commute[of path 2] bit_double_Suc_iff)
  ultimately show ?thesis
    by (simp add: dec_path_def del: upt_Suc)
qed

lemma insert_walk_dec:
  "k \<le> 32 \<Longrightarrow> insert_walk h pp cp path (of_nat k) = walk_list h (pp, cp) (dec_path path k)"
proof (induction k arbitrary: pp cp path)
  case 0
  then show ?case by (simp add: insert_walk.simps)
next
  case (Suc k)
  have k: "k < 2 ^ 32" using Suc.prems by (simp add: less_le_trans[of k 33])
  have "(of_nat (Suc k) :: 32 word) \<noteq> 0"
    using Suc.prems by (intro of_nat_neq_0) simp_all
  then have pos: "(0 :: 32 word) < of_nat (Suc k)"
    by (simp add: word_gt_0)
  have dec: "(of_nat (Suc k) :: 32 word) - 1 = of_nat k" by simp
  have b: "(path AND 1 \<noteq> 0) = bit path 0"
    by (simp add: and_one_eq bit_0 mod_2_eq_odd)
  show ?case
    apply (subst insert_walk.simps)
    using Suc.prems Suc.IH[of _ _ "drop_bit 1 path"]
    apply (simp only: pos dec if_True dec_path_Suc walk_list.simps b snd_conv)
    done
qed

lemma heap_path_dec:
  "kn \<le> 32 \<Longrightarrow> unat n * 2 ^ kn < 2 ^ 32 \<Longrightarrow>
   \<exists>path' kn'. heap_path path (of_nat kn) n = (path', of_nat kn') \<and> kn' \<le> 32 \<and>
      dec_path path' kn' = path_bits (unat n) @ dec_path path kn"
proof (induction "unat n" arbitrary: n path kn rule: less_induct)
  case less
  show ?case
  proof (cases "2 \<le> n")
    case False
    then have "unat n < 2" by (simp add: word_le_nat_alt)
    then have "path_bits (unat n) = []" by (simp add: path_bits.simps)
    moreover have "heap_path path (of_nat kn) n = (path, of_nat kn)"
      using False by (subst heap_path.simps) simp
    ultimately show ?thesis using less.prems(1) by auto
  next
    case True
    then have n2: "2 \<le> unat n" by (simp add: word_le_nat_alt)
    have dv: "unat (n div 2) = unat n div 2" by (simp add: unat_div)
    have lt: "unat (n div 2) < unat n" using n2 dv by simp
    have "2 * 2 ^ kn \<le> unat n * 2 ^ kn" using n2 by simp
    then have "(2::nat) * 2 ^ kn < 2 ^ 32" using less.prems(2) by linarith
    then have "(2::nat) ^ Suc kn < 2 ^ 32" by simp
    then have kn: "Suc kn < 32" by (rule power_less_imp_less_exp[rotated]) simp
    have "unat (n div 2) * 2 ^ Suc kn \<le> unat n * 2 ^ kn"
      unfolding dv by (simp add: mult.assoc[symmetric])
    then have b: "unat (n div 2) * 2 ^ Suc kn < 2 ^ 32" using less.prems(2) by linarith
    from less.hyps[OF lt _ b, of "push_bit 1 path OR (n AND 1)"] kn
    obtain path' kn' where r: "heap_path (push_bit 1 path OR (n AND 1)) (of_nat (Suc kn)) (n div 2) = (path', of_nat kn')"
       "kn' \<le> 32" "dec_path path' kn' = path_bits (unat (n div 2)) @ dec_path (push_bit 1 path OR (n AND 1)) (Suc kn)"
      by auto
    have o: "odd n = odd (unat n)"
      by transfer (simp add: even_nat_iff)
    have pb: "path_bits (unat n) = path_bits (unat n div 2) @ [odd (unat n)]"
      using n2 by (subst path_bits.simps) simp
    have "heap_path path (of_nat kn) n = (path', of_nat kn')"
      using True r(1) by (subst heap_path.simps) (simp add: add.commute)
    moreover have dp: "dec_path (push_bit 1 path OR (n AND 1)) (Suc kn) = odd n # dec_path path kn"
      using kn by (intro dec_path_push) simp
    have "dec_path path' kn' = path_bits (unat n) @ dec_path path kn"
      unfolding r(3) dp dv pb o by simp
    ultimately show ?thesis using r(2) by blast
  qed
qed

lemma heap_path_walk:
  assumes "m < 2 ^ 32"
  shows "(case heap_path 0 0 (of_nat m) of (path, k) \<Rightarrow> insert_walk h pp cp path k) =
         walk_list h (pp, cp) (path_bits m)"
proof -
  have u: "unat (of_nat m :: 32 word) = m" using assms by (simp add: unat_of_nat)
  from heap_path_dec[of 0 "of_nat m" 0] u assms
  obtain path' kn' where r: "heap_path 0 0 (of_nat m :: 32 word) = (path', of_nat kn')" "kn' \<le> 32"
    "dec_path path' kn' = path_bits m" by auto
  show ?thesis using r by (simp add: insert_walk_dec)
qed

lemma remove_walk_insert_walk:
  "remove_walk h cp path k = map_option snd (insert_walk h pp cp path k)"
proof (induction h pp cp path k rule: insert_walk.induct)
  case (1 h parent_p child_p path k)
  show ?case
    apply (subst remove_walk.simps)
    apply (subst insert_walk.simps)
    using 1 by (simp split: option.splits)
qed

lemma load_loc_of:
  assumes "heap_shape h xs" "1 \<le> m" "m div 2 \<le> length xs"
  shows "load h (loc_of xs m) = lk xs m"
proof (cases "m = 1")
  case True
  then show ?thesis using assms by (simp add: loc_of_def heap_shape_def)
next
  case False
  define p where "p = m div 2"
  have p: "1 \<le> p" "p \<le> length xs" "m = 2 * p \<or> m = Suc (2 * p)" using False assms by (auto simp: p_def)
  note mp = heap_shape_mem[OF assms(1) p(1,2)]
  show ?thesis using p(3)
  proof
    assume "m = 2 * p"
    then show ?thesis using p(1) by (simp add: loc_of_def mp)
  next
    assume "m = Suc (2 * p)"
    then show ?thesis using p(1) by (simp add: loc_of_def mp)
  qed
qed

lemma walk_list_append:
  "walk_list h pc (as @ bs) = (case walk_list h pc as of None \<Rightarrow> None | Some pc' \<Rightarrow> walk_list h pc' bs)"
  by (induction as arbitrary: pc) (auto split: option.splits)

lemma walk_list_shape:
  assumes "heap_shape h xs"
  shows "1 \<le> n \<Longrightarrow> n div 2 \<le> length xs \<Longrightarrow>
    walk_list h (Min_loc, Min_loc) (path_bits n) = Some (loc_of xs (n div 2), loc_of xs n)"
proof (induction n rule: less_induct)
  case (less n)
  show ?case
  proof (cases "n < 2")
    case True
    then show ?thesis using less.prems by (simp add: path_bits.simps loc_of_def)
  next
    case False
    define p where "p = n div 2"
    have p: "1 \<le> p" "p \<le> length xs" "p < n" "p div 2 \<le> length xs" using False less.prems by (auto simp: p_def)
    have ih: "walk_list h (Min_loc, Min_loc) (path_bits p) = Some (loc_of xs (p div 2), loc_of xs p)"
      using less.IH[OF p(3) p(1) p(4)] .
    have ld: "load h (loc_of xs p) = Some (nth1 xs p)"
      using load_loc_of[OF assms p(1) p(4)] p by (simp add: lk_in)
    have pb: "path_bits n = path_bits p @ [odd n]"
      using False by (subst path_bits.simps) (simp add: p_def)
    have "(if odd n then Right_loc (nth1 xs p) else Left_loc (nth1 xs p)) = loc_of xs n"
      using False by (simp add: loc_of_def p_def)
    then show ?thesis
      by (simp add: pb walk_list_append ih ld p_def[symmetric])
  qed
qed

section \<open>heap_insert on the level-order sequence\<close>

lemma nth1_append: "1 \<le> i \<Longrightarrow> nth1 (xs @ [x]) i = (if i = Suc (length xs) then x else if i \<le> length xs then nth1 xs i else nth1 (xs @ [x]) i)"
  by (auto simp: nth1_def nth_append)

lemma lk_append: "lk (xs @ [x]) j = (if j = Suc (length xs) then Some x else lk xs j)"
  by (auto simp: lk_def nth1_def nth_append)

lemma nth1_mem: "1 \<le> i \<Longrightarrow> i \<le> length xs \<Longrightarrow> nth1 xs i \<in> set xs"
  by (simp add: nth1_def)

lemma shape_append:
  assumes sh: "heap_shape h xs" and new: "x \<notin> set xs" and cap: "Suc (length xs) < 2 ^ 32"
    and n: "n = Suc (length xs)" and p: "n = 2 * p \<or> n = Suc (2 * p)"
  shows "heap_shape ((store (h\<lparr>mem := (mem h)(x := \<lparr>left = None, right = None, parent = lk xs p\<rparr>)\<rparr>)
            (loc_of xs n) (Some x))\<lparr>nelts := nelts h + 1\<rparr>) (xs @ [x])"
    (is "heap_shape ?h' ?xs'")
proof -
  have d: "distinct xs" using sh by (simp add: heap_shape_def)
  have pn: "p < n" "p \<le> length xs" using p n by auto
  have xne: "nth1 xs i \<noteq> x" if "1 \<le> i" "i \<le> length xs" for i
    using nth1_mem[OF that] new by auto
  have lkx: "lk xs j \<noteq> Some x" for j
    using xne[of j] by (auto simp: lk_def)
  let ?m = "(mem h)(x := \<lparr>left = None, right = None, parent = lk xs p\<rparr>)"
  have p1': "1 \<le> p" if "n \<noteq> 1"
    using p n that by (cases p) auto
  have ln: "loc_of xs n = (if n = 1 then Min_loc else if n = 2 * p then Left_loc (nth1 xs p)
                            else Right_loc (nth1 xs p))"
    using p
  proof
    assume e: "n = 2 * p"
    have "1 \<le> p" using e n by (cases p) auto
    then have "even n" "n div 2 = p" "n \<noteq> 1" "\<not> n \<le> 1" using e by auto
    then show ?thesis using e by (simp add: loc_of_def)
  next
    assume e: "n = Suc (2 * p)"
    then have "odd n" "n div 2 = p" "n \<noteq> 2 * p" by auto
    then show ?thesis by (auto simp add: loc_of_def)
  qed
  have mem': "mem ?h' = (if n = 1 then ?m else if n = 2 * p then set_left ?m (nth1 xs p) (Some x)
                         else set_right ?m (nth1 xs p) (Some x))"
    unfolding ln by simp
  show ?thesis
  proof (rule heap_shapeI)
    show "distinct ?xs'" using d new by simp
    show "length ?xs' < 2 ^ 32" using cap by simp
    show "nelts ?h' = word_of_nat (length ?xs')"
      using sh by (cases "loc_of xs n") (simp_all add: heap_shape_def)
    show "min_h ?h' = lk ?xs' 1"
    proof (cases "n = 1")
      case True
      then show ?thesis unfolding ln lk_append using n by simp
    next
      case False
      then have "min_h ?h' = min_h h" unfolding ln by simp
      then show ?thesis using sh False n by (simp add: heap_shape_def lk_append)
    qed
  next
    fix i j assume i: "1 \<le> i" "i \<le> length ?xs'" and j: "i = 2 * j \<or> i = Suc (2 * j)"
    consider "i = n" | "i = p" "i \<noteq> n" | "i \<noteq> n" "i \<noteq> p" by blast
    then show "mem ?h' (nth1 ?xs' i) = \<lparr>left = lk ?xs' (2 * i), right = lk ?xs' (Suc (2 * i)), parent = lk ?xs' j\<rparr>"
    proof cases
      case 1
      have nx: "nth1 ?xs' n = x" using n by (simp add: nth1_append)
      have jp: "j = p" using 1 p j by auto
      have A: "2 * n \<noteq> n" "Suc (2 * n) \<noteq> n" "p \<noteq> n" using n pn by auto
      have B: "lk xs (2 * n) = None" "lk xs (Suc (2 * n)) = None" using n by (auto intro: lk_out)
      have xp: "x \<noteq> nth1 xs p" if "1 \<le> p" using xne[OF that pn(2)] by simp
      have "mem ?h' x = \<lparr>left = None, right = None, parent = lk xs p\<rparr>"
      proof (cases "n = 1")
        case True
        then show ?thesis unfolding mem' by simp
      next
        case False
        then have "1 \<le> p" by (rule p1')
        from xp[OF this] False show ?thesis unfolding mem' by (simp add: app_set_left app_set_right)
      qed
      then have "mem ?h' (nth1 ?xs' n) = \<lparr>left = lk ?xs' (2 * n), right = lk ?xs' (Suc (2 * n)), parent = lk ?xs' p\<rparr>"
        unfolding nx lk_append n[symmetric] by (simp add: A B)
      then show ?thesis using 1 jp by simp
    next
      case 2
      have i': "i \<le> length xs" using i 2 n by simp
      have p1: "1 \<le> p" using 2 i by simp
      have nn: "nth1 ?xs' p = nth1 xs p" using p1 pn n by (simp add: nth1_append)
      have n1: "n \<noteq> 1" using p1 p by linarith
      note mp = heap_shape_mem2[OF sh i(1) i' j, unfolded 2(1)]
      have jn: "j \<noteq> n" using j 2 pn by auto
      have xp: "nth1 xs p \<noteq> x" using xne[OF p1 pn(2)] .
      from p show ?thesis
      proof
        assume e: "n = 2 * p"
        have "mem ?h' (nth1 xs p) = \<lparr>left = Some x, right = lk xs (Suc (2 * p)), parent = lk xs j\<rparr>"
          unfolding mem' using n1 e xp by (simp add: app_set_left mp)
        moreover have "lk xs (Suc (2 * p)) = None" using e n by (auto intro: lk_out)
        moreover have "Suc (2 * p) \<noteq> n" using e by simp
        ultimately have "mem ?h' (nth1 ?xs' p) = \<lparr>left = lk ?xs' (2 * p), right = lk ?xs' (Suc (2 * p)), parent = lk ?xs' j\<rparr>"
          unfolding nn lk_append n[symmetric] using e[symmetric] jn by simp
        then show ?thesis using 2 by simp
      next
        assume e: "n = Suc (2 * p)"
        have "mem ?h' (nth1 xs p) = \<lparr>left = lk xs (2 * p), right = Some x, parent = lk xs j\<rparr>"
          unfolding mem' using n1 e xp by (simp add: app_set_right mp)
        moreover have "2 * p \<noteq> n" using e by simp
        ultimately have "mem ?h' (nth1 ?xs' p) = \<lparr>left = lk ?xs' (2 * p), right = lk ?xs' (Suc (2 * p)), parent = lk ?xs' j\<rparr>"
          unfolding nn lk_append n[symmetric] using e[symmetric] jn by simp
        then show ?thesis using 2 by simp
      qed
    next
      case 3
      have i': "i \<le> length xs" using i 3 n by simp
      have nn: "nth1 ?xs' i = nth1 xs i" using i i' n by (simp add: nth1_append)
      note mi = heap_shape_mem2[OF sh i(1) i' j]
      have xi: "nth1 xs i \<noteq> x" using xne[OF i(1) i'] .
      have ip: "nth1 xs i \<noteq> nth1 xs p" if "1 \<le> p"
        using nth1_eq_iff[OF d i(1) i' that pn(2)] 3 by simp
      have A: "2 * i \<noteq> n" "Suc (2 * i) \<noteq> n" "j \<noteq> n" using 3 p j i' n by auto
      have "mem ?h' (nth1 xs i) = mem h (nth1 xs i)"
      proof (cases "n = 1")
        case True
        then show ?thesis unfolding mem' using xi by simp
      next
        case False
        then have "1 \<le> p" by (rule p1')
        from ip[OF this] xi False show ?thesis unfolding mem' by (simp add: app_set_left app_set_right)
      qed
      then show ?thesis unfolding nn lk_append n[symmetric] mi by (simp add: A)
    qed
  qed
qed

lemma heap_shape_cong:
  assumes "heap_shape h xs" "min_h h' = min_h h" "nelts h' = nelts h" "\<And>a. a \<in> set xs \<Longrightarrow> mem h' a = mem h a"
  shows "heap_shape h' xs"
  using assms unfolding heap_shape_def by (auto simp: nth1_mem)

lemma heap_insert_link:
  assumes sh: "heap_shape h xs" and new: "x \<notin> set xs" and cap: "Suc (length xs) < 2 ^ 32"
  shows "\<exists>h4. heap_shape h4 (xs @ [x]) \<and> heap_insert lt h x = sift_up lt h4 x"
proof -
  define n where "n = Suc (length xs)"
  define p where "p = n div 2"
  have p: "n = 2 * p \<or> n = Suc (2 * p)" by (auto simp: p_def)
  have pn: "p \<le> length xs" by (auto simp: p_def n_def)
  define h1 where "h1 = h\<lparr>mem := (mem h)(x := \<lparr>left = None, right = None, parent = None\<rparr>)\<rparr>"
  have sh1: "heap_shape h1 xs"
    using sh new by (auto intro!: heap_shape_cong[OF sh] simp: h1_def)
  have ne: "1 + nelts h1 = of_nat n"
    using sh by (simp add: h1_def heap_shape_def n_def)
  have n1: "1 \<le> n" "n < 2 ^ 32" using cap by (simp_all add: n_def)
  have w: "(case heap_path 0 0 (1 + nelts h1) of (path, k) \<Rightarrow> insert_walk h1 Min_loc Min_loc path k)
       = Some (loc_of xs p, loc_of xs n)"
    unfolding ne heap_path_walk[OF n1(2)] p_def
    using pn by (intro walk_list_shape[OF sh1 n1(1)]) (simp add: p_def)
  have ld: "load h1 (loc_of xs p) = lk xs p"
  proof (cases "p = 0")
    case True
    then have "length xs = 0" using p n_def by auto
    then show ?thesis using True sh1 by (simp add: loc_of_def heap_shape_def lk_def)
  next
    case False
    then show ?thesis using load_loc_of[OF sh1, of p] pn by simp
  qed
  define h4 where "h4 = (store (h\<lparr>mem := (mem h)(x := \<lparr>left = None, right = None, parent = lk xs p\<rparr>)\<rparr>)
            (loc_of xs n) (Some x))\<lparr>nelts := nelts h + 1\<rparr>"
  have "heap_shape h4 (xs @ [x])"
    unfolding h4_def using shape_append[OF sh new cap n_def p] .
  moreover have "heap_insert lt h x = sift_up lt h4 x"
  proof -
    have h2: "h1\<lparr>mem := set_parent (mem h1) x (load h1 (loc_of xs p))\<rparr>
        = h\<lparr>mem := (mem h)(x := \<lparr>left = None, right = None, parent = lk xs p\<rparr>)\<rparr>"
      unfolding ld by (simp add: h1_def set_parent_def)
    have n3: "nelts (store (h\<lparr>mem := m\<rparr>) l v) = nelts h" for m l v
      by (cases l) simp_all
    show ?thesis
      unfolding heap_insert_def Let_def h1_def[symmetric]
      using w by (auto simp: h2 h4_def n3 split: prod.splits)
  qed
  ultimately show ?thesis by blast
qed

lemma sift_up_shape:
  "heap_shape h xs \<Longrightarrow> 1 \<le> i \<Longrightarrow> i \<le> length xs \<Longrightarrow>
   \<exists>h'. sift_up lt h (nth1 xs i) = Some h' \<and> heap_shape h' (sift_up_l lt xs i)"
proof (induction i arbitrary: h xs rule: less_induct)
  case (less i)
  define p where "p = i div 2"
  have p: "i = 2 * p \<or> i = Suc (2 * p)" by (auto simp: p_def)
  obtain q where q: "p = 2 * q \<or> p = Suc (2 * q)" by (metis even_two_times_div_two odd_two_times_div_two_succ Suc_eq_plus1)
  note mi = heap_shape_mem2[OF less.prems p]
  show ?case
  proof (cases "2 \<le> i \<and> lt (nth1 xs i) (nth1 xs p)")
    case False
    have l: "sift_up_l lt xs i = xs"
      using False by (subst sift_up_l.simps) (auto simp: p_def)
    have "sift_up lt h (nth1 xs i) = Some h"
    proof (cases "2 \<le> i")
      case True
      then have "lk xs p = Some (nth1 xs p)" using less.prems by (auto simp: p_def intro!: lk_in)
      then show ?thesis using False True by (subst sift_up.simps) (simp add: mi)
    next
      case False
      then have "lk xs p = None" using less.prems by (auto simp: p_def intro!: lk_out)
      then show ?thesis by (subst sift_up.simps) (simp add: mi)
    qed
    then show ?thesis using l less.prems by simp
  next
    case True
    then have p1: "1 \<le> p" "p < i" "p \<le> length xs" using less.prems by (auto simp: p_def)
    have lkp: "lk xs p = Some (nth1 xs p)" using p1 by (simp add: lk_in)
    let ?h1 = "heap_node_swap h (nth1 xs p) (nth1 xs i)"
    let ?xs1 = "swap1 xs p i"
    have sh1: "heap_shape ?h1 ?xs1"
      using swap_shape_aux[OF less.prems(1) less.prems(3) p1(1) p q] .
    have n1: "nth1 ?xs1 p = nth1 xs i"
      using p1 less.prems by (simp add: nth1_swap1)
    from less.IH[OF p1(2) sh1 p1(1)] p1(3)
    obtain h' where h': "sift_up lt ?h1 (nth1 xs i) = Some h'" "heap_shape h' (sift_up_l lt ?xs1 p)"
      unfolding n1 by auto
    have l: "sift_up_l lt xs i = sift_up_l lt ?xs1 p"
      using True less.prems by (subst sift_up_l.simps) (simp add: p_def)
    have "sift_up lt h (nth1 xs i) = Some h'"
      using True h'(1) by (subst sift_up.simps) (simp add: mi lkp)
    then show ?thesis using l h'(2) by simp
  qed
qed

lemma sift_up_l_length [simp]: "length (sift_up_l lt xs i) = length xs"
proof (induction i arbitrary: xs rule: less_induct)
  case (less i)
  show ?case
  proof (cases "2 \<le> i \<and> i \<le> length xs \<and> lt (nth1 xs i) (nth1 xs (i div 2))")
    case True
    then have "i div 2 < i" by simp
    from less.IH[OF this] True show ?thesis by (subst sift_up_l.simps) simp
  next
    case False
    then show ?thesis by (subst sift_up_l.simps) auto
  qed
qed

lemma sift_up_l_set [simp]: "set (sift_up_l lt xs i) = set xs"
proof (induction i arbitrary: xs rule: less_induct)
  case (less i)
  show ?case
  proof (cases "2 \<le> i \<and> i \<le> length xs \<and> lt (nth1 xs i) (nth1 xs (i div 2))")
    case True
    then have p: "i div 2 < i" "1 \<le> i div 2" "i div 2 \<le> length xs" "1 \<le> i" "i \<le> length xs" by auto
    from less.IH[OF p(1)] True set_swap1[OF p(2,3,4,5)] show ?thesis by (subst sift_up_l.simps) simp
  next
    case False
    then show ?thesis by (subst sift_up_l.simps) auto
  qed
qed

lemma sift_down_l_length_set:
  "1 \<le> i \<Longrightarrow> i \<le> length xs \<Longrightarrow>
   length (fst (sift_down_l lt xs i)) = length xs \<and> set (fst (sift_down_l lt xs i)) = set xs"
proof (induction "length xs - i" arbitrary: xs i rule: less_induct)
  case less
  define s where "s = smallest_l lt xs i"
  have sc: "s = i \<or> (s = 2 * i \<and> 2 * i \<le> length xs) \<or> (s = Suc (2 * i) \<and> Suc (2 * i) \<le> length xs)"
    unfolding s_def by (rule smallest_l_cases)
  show ?case
  proof (cases "s = i")
    case True
    then show ?thesis by (subst (1 2) sift_down_l.simps) (simp add: s_def[symmetric])
  next
    case False
    then have s: "s \<le> length xs" "i < s" "1 \<le> s" using sc less.prems by auto
    have l: "sift_down_l lt xs i = sift_down_l lt (swap1 xs i s) s"
      using False less.prems by (subst sift_down_l.simps) (simp add: s_def[symmetric])
    have m: "length (swap1 xs i s) - s < length xs - i" using s by simp
    from less.hyps[OF m s(3)] s(1) set_swap1[OF less.prems s(3,1)] show ?thesis by (simp add: l)
  qed
qed

section \<open>heap_remove on the level-order sequence\<close>

lemma nth1_butlast: "1 \<le> i \<Longrightarrow> i < length xs \<Longrightarrow> nth1 (butlast xs) i = nth1 xs i"
  by (simp add: nth1_def nth_butlast)

lemma lk_butlast: "lk (butlast xs) j = (if j = length xs then None else lk xs j)"
  by (auto simp: lk_def nth1_butlast)

lemma loc_of_cases:
  assumes "1 \<le> n" "n = 2 * p \<or> n = Suc (2 * p)"
  shows "loc_of xs n = (if n = 1 then Min_loc else if n = 2 * p then Left_loc (nth1 xs p)
                            else Right_loc (nth1 xs p))"
  using assms(2)
proof
  assume e: "n = 2 * p"
  have "1 \<le> p" using e assms(1) by (cases p) auto
  then have "even n" "n div 2 = p" "n \<noteq> 1" "\<not> n \<le> 1" using e by auto
  then show ?thesis using e by (simp add: loc_of_def)
next
  assume e: "n = Suc (2 * p)"
  then have "odd n" "n div 2 = p" "n \<noteq> 2 * p" by auto
  then show ?thesis by (auto simp add: loc_of_def)
qed

lemma shape_butlast:
  assumes sh: "heap_shape h xs" and n: "n = length xs" "1 \<le> n"
  shows "heap_shape (store (h\<lparr>nelts := nelts h - 1\<rparr>) (loc_of xs n) None) (butlast xs)"
    (is "heap_shape ?h' ?xs'")
proof -
  have d: "distinct xs" using sh by (simp add: heap_shape_def)
  define p where "p = n div 2"
  have p: "n = 2 * p \<or> n = Suc (2 * p)" by (auto simp: p_def)
  have pn: "p < n" "p \<le> length xs" using p n by auto
  have p1': "1 \<le> p" if "n \<noteq> 1"
    using p n that by (cases p) auto
  note ln = loc_of_cases[OF n(2) p, of xs]
  have mem': "mem ?h' = (if n = 1 then mem h else if n = 2 * p then set_left (mem h) (nth1 xs p) None
                         else set_right (mem h) (nth1 xs p) None)"
    unfolding ln by simp
  show ?thesis
  proof (rule heap_shapeI)
    show "distinct ?xs'" using d by (simp add: distinct_butlast)
    have "length xs < 2 ^ 32" using sh by (simp add: heap_shape_def)
    then show "length ?xs' < 2 ^ 32" by simp
    have "nelts ?h' = nelts h - 1" by (cases "loc_of xs n") simp_all
    also have "\<dots> = of_nat (length xs) - 1" using sh by (simp add: heap_shape_def)
    also have "\<dots> = of_nat (length xs - 1)" using n by simp
    finally show "nelts ?h' = word_of_nat (length ?xs')" by simp
    show "min_h ?h' = lk ?xs' 1"
    proof (cases "n = 1")
      case True
      then show ?thesis unfolding ln lk_butlast using n by simp
    next
      case False
      then have "min_h ?h' = min_h h" unfolding ln by simp
      then show ?thesis using sh False n by (simp add: heap_shape_def lk_butlast)
    qed
  next
    fix i j assume i: "1 \<le> i" "i \<le> length ?xs'" and j: "i = 2 * j \<or> i = Suc (2 * j)"
    have i': "i < length xs" "i \<le> length xs" "i \<noteq> n" using i n by auto
    have nn: "nth1 ?xs' i = nth1 xs i" using i i' by (simp add: nth1_butlast)
    note mi = heap_shape_mem2[OF sh i(1) i'(2) j]
    have jn: "j \<noteq> n" using j i' n by auto
    show "mem ?h' (nth1 ?xs' i) = \<lparr>left = lk ?xs' (2 * i), right = lk ?xs' (Suc (2 * i)), parent = lk ?xs' j\<rparr>"
    proof (cases "i = p")
      case True
      then have n1: "n \<noteq> 1" using i p by linarith
      from p show ?thesis
      proof
        assume e: "n = 2 * p"
        have "mem ?h' (nth1 xs p) = \<lparr>left = None, right = lk xs (Suc (2 * p)), parent = lk xs j\<rparr>"
          unfolding mem' using n1 e by (simp add: app_set_left mi[unfolded True])
        moreover have "Suc (2 * p) \<noteq> n" using e by simp
        ultimately have "mem ?h' (nth1 ?xs' p) = \<lparr>left = lk ?xs' (2 * p), right = lk ?xs' (Suc (2 * p)), parent = lk ?xs' j\<rparr>"
          unfolding nn[unfolded True] lk_butlast n(1)[symmetric] using e[symmetric] jn by simp
        then show ?thesis using True by simp
      next
        assume e: "n = Suc (2 * p)"
        have "mem ?h' (nth1 xs p) = \<lparr>left = lk xs (2 * p), right = None, parent = lk xs j\<rparr>"
          unfolding mem' using n1 e by (simp add: app_set_right mi[unfolded True])
        moreover have "2 * p \<noteq> n" using e by simp
        ultimately have "mem ?h' (nth1 ?xs' p) = \<lparr>left = lk ?xs' (2 * p), right = lk ?xs' (Suc (2 * p)), parent = lk ?xs' j\<rparr>"
          unfolding nn[unfolded True] lk_butlast n(1)[symmetric] using e[symmetric] jn by simp
        then show ?thesis using True by simp
      qed
    next
      case False
      have ip: "nth1 xs i \<noteq> nth1 xs p" if "1 \<le> p"
        using nth1_eq_iff[OF d i(1) i'(2) that pn(2)] False by simp
      have A: "2 * i \<noteq> n" "Suc (2 * i) \<noteq> n" using False p by auto
      have "mem ?h' (nth1 xs i) = mem h (nth1 xs i)"
      proof (cases "n = 1")
        case True
        then show ?thesis unfolding mem' by simp
      next
        case False
        then have "1 \<le> p" by (rule p1')
        from ip[OF this] False show ?thesis unfolding mem' by (simp add: app_set_left app_set_right)
      qed
      then show ?thesis unfolding nn lk_butlast n(1)[symmetric] mi using A jn by simp
    qed
  qed
qed

lemma splice_read:
  assumes nc: "node \<noteq> child"
    and mn: "mem h node = \<lparr>left = nl, right = nr, parent = g\<rparr>"
    and na: "nl \<noteq> Some child" "nr \<noteq> Some child" "g \<noteq> Some child"
            "nl \<noteq> Some node" "nr \<noteq> Some node" "g \<noteq> Some node"
  shows splice_mem: "mem (remove_splice h node child) a =
    (let base = (if a = child then \<lparr>left = nl, right = nr, parent = g\<rparr> else mem h a);
         b1 = (if nl = Some a then base\<lparr>parent := Some child\<rparr> else base);
         b2 = (if nr = Some a then b1\<lparr>parent := Some child\<rparr> else b1)
     in if g = Some a then
          (if left (mem h a) = Some node then b2\<lparr>left := Some child\<rparr> else b2\<lparr>right := Some child\<rparr>)
        else b2)"
    and splice_min: "min_h (remove_splice h node child) = (if g = None then Some child else min_h h)"
    and splice_nelts: "nelts (remove_splice h node child) = nelts h"
proof -
  define m1 where "m1 = set_left (mem h) child (left (mem h node))"
  define m2 where "m2 = set_right m1 child (right (m1 node))"
  define m3 where "m3 = set_parent m2 child (parent (m2 node))"
  define m4 where "m4 = (case left (m3 child) of None \<Rightarrow> m3 | Some l \<Rightarrow> set_parent m3 l (Some child))"
  define m5 where "m5 = (case right (m4 child) of None \<Rightarrow> m4 | Some r \<Rightarrow> set_parent m4 r (Some child))"
  have hs: "remove_splice h node child = (case parent (m5 node) of
            None \<Rightarrow> h\<lparr>min_h := Some child, mem := m5\<rparr>
          | Some g \<Rightarrow>
              if left (m5 g) = Some node then h\<lparr>mem := set_left m5 g (Some child)\<rparr>
              else h\<lparr>mem := set_right m5 g (Some child)\<rparr>)"
    unfolding remove_splice_def Let_def m5_def m4_def m3_def m2_def m1_def by simp
  have m3: "m3 a = (if a = child then \<lparr>left = nl, right = nr, parent = g\<rparr> else mem h a)" for a
    using nc by (simp add: m3_def m2_def m1_def app_set_parent app_set_left app_set_right mn)
  have m3c: "left (m3 child) = nl" by (simp add: m3)
  have m4: "m4 a = (if nl = Some a then (m3 a)\<lparr>parent := Some child\<rparr> else m3 a)" for a
    unfolding m4_def m3c by (rule app_case_parent)
  have m4c: "right (m4 child) = nr" using na by (simp add: m4 m3)
  have m5: "m5 a = (if nr = Some a then (m4 a)\<lparr>parent := Some child\<rparr> else m4 a)" for a
    unfolding m5_def m4c by (rule app_case_parent)
  have m5n: "parent (m5 node) = g" using na nc by (simp add: m5 m4 m3 mn)
  have m5l: "left (m5 b) = left (m3 b)" for b by (simp add: m5 m4)
  show "mem (remove_splice h node child) a =
    (let base = (if a = child then \<lparr>left = nl, right = nr, parent = g\<rparr> else mem h a);
         b1 = (if nl = Some a then base\<lparr>parent := Some child\<rparr> else base);
         b2 = (if nr = Some a then b1\<lparr>parent := Some child\<rparr> else b1)
     in if g = Some a then
          (if left (mem h a) = Some node then b2\<lparr>left := Some child\<rparr> else b2\<lparr>right := Some child\<rparr>)
        else b2)"
  proof (cases g)
    case None
    then show ?thesis unfolding hs m5n by (simp add: m5 m4 m3 Let_def)
  next
    case (Some G)
    have G: "G \<noteq> child" using na Some by auto
    have l5: "left (m5 G) = left (mem h G)" using G by (simp add: m5l m3)
    have hs': "remove_splice h node child =
        (if left (mem h G) = Some node then h\<lparr>mem := set_left m5 G (Some child)\<rparr>
         else h\<lparr>mem := set_right m5 G (Some child)\<rparr>)"
      using hs m5n Some l5 by simp
    show ?thesis unfolding hs' using Some G na nc
      by (simp add: m5 m4 m3 Let_def app_set_left app_set_right)
  qed
  show "min_h (remove_splice h node child) = (if g = None then Some child else min_h h)"
    unfolding hs m5n by (simp split: option.splits)
  show "nelts (remove_splice h node child) = nelts h"
    unfolding hs by (simp split: option.splits)
qed

lemma nth1_upd1_same: "1 \<le> i \<Longrightarrow> i \<le> length xs \<Longrightarrow> nth1 (upd1 xs i v) i = v"
  by (simp add: nth1_upd1)

lemma lk_upd1: "1 \<le> j \<Longrightarrow> j \<le> length xs \<Longrightarrow> lk (upd1 xs j v) k = (if k = j then Some v else lk xs k)"
  by (simp add: lk_def nth1_upd1)

lemma splice_shape:
  assumes sh: "heap_shape h ys" and j: "1 \<le> j" "j \<le> length ys" and new: "c \<notin> set ys"
    and q: "j = 2 * q \<or> j = Suc (2 * q)"
  shows "heap_shape (remove_splice h (nth1 ys j) c) (upd1 ys j c)"
    (is "heap_shape ?h' ?ys'")
proof -
  let ?X = "nth1 ys j"
  have d: "distinct ys" using sh by (simp add: heap_shape_def)
  have cne: "nth1 ys i \<noteq> c" if "1 \<le> i" "i \<le> length ys" for i
    using nth1_mem[OF that] new by auto
  have lkc: "lk ys k \<noteq> Some c" for k
    using cne[of k] by (auto simp: lk_def)
  have lkX: "lk ys k = Some ?X \<longleftrightarrow> k = j" for k
    using lk_eq_Some_iff[OF d j] by simp
  have memX: "mem h ?X = \<lparr>left = lk ys (2 * j), right = lk ys (Suc (2 * j)), parent = lk ys q\<rparr>"
    using heap_shape_mem2[OF sh j q] .
  have A0: "2 * j \<noteq> j" "Suc (2 * j) \<noteq> j" "q \<noteq> j" using j q by auto
  have na: "lk ys (2 * j) \<noteq> Some ?X" "lk ys (Suc (2 * j)) \<noteq> Some ?X" "lk ys q \<noteq> Some ?X"
    using A0 by (simp_all add: lkX)
  have Xc: "?X \<noteq> c" using cne[OF j] .
  note rd = splice_mem[OF Xc memX lkc lkc lkc na]
  note rd2 = splice_min[OF Xc memX lkc lkc lkc na] splice_nelts[OF Xc memX lkc lkc lkc na]
  note lks = lk_upd1[OF j, of c]
  show ?thesis
  proof (rule heap_shapeI)
    have "set ?ys' \<subseteq> insert c (set ys)" unfolding upd1_def by (rule set_update_subset_insert)
    show "distinct ?ys'" using d new unfolding upd1_def by (simp add: distinct_list_update)
    show "length ?ys' < 2 ^ 32" using sh by (simp add: heap_shape_def)
    show "nelts ?h' = word_of_nat (length ?ys')" using sh by (simp add: rd2 heap_shape_def)
    have "min_h h = lk ys 1" using sh by (simp add: heap_shape_def)
    moreover have "q = 0 \<longleftrightarrow> j = 1" "lk ys q = None \<longleftrightarrow> q = 0" using q j by (auto simp: lk_def)
    ultimately show "min_h ?h' = lk ?ys' 1"
      unfolding rd2 lks by auto
  next
    fix i j' assume i: "1 \<le> i" "i \<le> length ?ys'" and j': "i = 2 * j' \<or> i = Suc (2 * j')"
    have i': "i \<le> length ys" using i by simp
    show "mem ?h' (nth1 ?ys' i) = \<lparr>left = lk ?ys' (2 * i), right = lk ?ys' (Suc (2 * i)), parent = lk ?ys' j'\<rparr>"
    proof (cases "i = j")
      case True
      have n: "nth1 ?ys' j = c" using j by (simp add: nth1_upd1_same)
      have jq: "j' = q" using True q j' by auto
      have "mem ?h' (nth1 ?ys' j) = \<lparr>left = lk ?ys' (2 * j), right = lk ?ys' (Suc (2 * j)), parent = lk ?ys' q\<rparr>"
        unfolding n rd lks Let_def by (simp add: lkc A0)
      then show ?thesis using True jq by simp
    next
      case False
      have n: "nth1 ?ys' i = nth1 ys i" using False i i' j by (simp add: nth1_upd1)
      have ne: "nth1 ys i \<noteq> c" using cne[OF i(1) i'] .
      have lki: "lk ys k = Some (nth1 ys i) \<longleftrightarrow> k = i" for k
        using lk_eq_Some_iff[OF d i(1) i'] by simp
      note mi = heap_shape_mem2[OF sh i(1) i' j']
      consider (kid) "j' = j" | (gp) "i = q" | (far) "j' \<noteq> j" "i \<noteq> q" by blast
      then show ?thesis
      proof cases
        case kid
        have A: "q \<noteq> i" "2 * i \<noteq> j" "Suc (2 * i) \<noteq> j"
          using kid False j q j' i(1) by auto
        have B: "2 * j = i \<and> Suc (2 * j) \<noteq> i \<or> 2 * j \<noteq> i \<and> Suc (2 * j) = i"
          using kid j' by auto
        have "mem ?h' (nth1 ys i) = \<lparr>left = lk ?ys' (2 * i), right = lk ?ys' (Suc (2 * i)), parent = lk ?ys' j\<rparr>"
          unfolding rd lks mi Let_def using B
          by (elim disjE conjE; simp add: lkX lki ne A)
        then show ?thesis using n kid by simp
      next
        case gp
        have A: "j' \<noteq> j" "2 * j \<noteq> i" "Suc (2 * j) \<noteq> i"
          using gp False j q j' i(1) by auto
        have B: "2 * i = j \<and> Suc (2 * i) \<noteq> j \<or> 2 * i \<noteq> j \<and> Suc (2 * i) = j"
          using gp q by auto
        have "mem ?h' (nth1 ys i) = \<lparr>left = lk ?ys' (2 * i), right = lk ?ys' (Suc (2 * i)), parent = lk ?ys' j'\<rparr>"
          unfolding rd lks mi Let_def gp[symmetric] using B
          by (elim disjE conjE; simp add: lkX lki ne A)
        then show ?thesis using n by simp
      next
        case far
        have A: "2 * j \<noteq> i" "Suc (2 * j) \<noteq> i" "q \<noteq> i" "2 * i \<noteq> j" "Suc (2 * i) \<noteq> j"
          using far False j q j' i(1) by auto
        have "mem ?h' (nth1 ys i) = \<lparr>left = lk ?ys' (2 * i), right = lk ?ys' (Suc (2 * i)), parent = lk ?ys' j'\<rparr>"
          unfolding rd lks mi Let_def
          by (simp add: lkX lki ne A far)
        then show ?thesis using n by simp
      qed
    qed
  qed
qed

lemma smallest_of_l:
  assumes sh: "heap_shape h xs" and i: "1 \<le> i" "i \<le> length xs"
  shows "smallest_of lt h (nth1 xs i) = nth1 xs (smallest_l lt xs i)"
proof -
  obtain q where q: "i = 2 * q \<or> i = Suc (2 * q)"
    by (metis even_two_times_div_two odd_two_times_div_two_succ Suc_eq_plus1)
  note mi = heap_shape_mem2[OF sh i q]
  show ?thesis
    unfolding smallest_of_def smallest_l_def Let_def mi
    using i by (auto simp: lk_def)
qed

lemma sift_down_shape:
  "heap_shape h xs \<Longrightarrow> 1 \<le> i \<Longrightarrow> i \<le> length xs \<Longrightarrow>
   \<exists>h'. sift_down lt h (nth1 xs i) = Some h' \<and> heap_shape h' (fst (sift_down_l lt xs i)) \<and>
        1 \<le> snd (sift_down_l lt xs i) \<and> snd (sift_down_l lt xs i) \<le> length xs \<and>
        nth1 (fst (sift_down_l lt xs i)) (snd (sift_down_l lt xs i)) = nth1 xs i"
proof (induction "length xs - i" arbitrary: h xs i rule: less_induct)
  case less
  define s where "s = smallest_l lt xs i"
  have d: "distinct xs" using less.prems by (simp add: heap_shape_def)
  have sm: "smallest_of lt h (nth1 xs i) = nth1 xs s"
    unfolding s_def using smallest_of_l[OF less.prems] .
  have sc: "s = i \<or> (s = 2 * i \<and> 2 * i \<le> length xs) \<or> (s = Suc (2 * i) \<and> Suc (2 * i) \<le> length xs)"
    unfolding s_def by (rule smallest_l_cases)
  show ?case
  proof (cases "s = i")
    case True
    have "sift_down lt h (nth1 xs i) = Some h"
      by (subst sift_down.simps) (simp add: sm True)
    moreover have "sift_down_l lt xs i = (xs, i)"
      using True by (subst sift_down_l.simps) (simp add: s_def[symmetric])
    ultimately show ?thesis using less.prems by simp
  next
    case False
    then have s: "s = 2 * i \<or> s = Suc (2 * i)" "s \<le> length xs" "i < s" "1 \<le> s" using sc less.prems by auto
    have ne: "nth1 xs s \<noteq> nth1 xs i"
      using nth1_eq_iff[OF d s(4) s(2) less.prems(2,3)] False by simp
    obtain q where q: "i = 2 * q \<or> i = Suc (2 * q)"
      by (metis even_two_times_div_two odd_two_times_div_two_succ Suc_eq_plus1)
    let ?h1 = "heap_node_swap h (nth1 xs i) (nth1 xs s)"
    let ?xs1 = "swap1 xs i s"
    have sh1: "heap_shape ?h1 ?xs1"
      using swap_shape_aux[OF less.prems(1) s(2) less.prems(2) s(1) q] .
    have n1: "nth1 ?xs1 s = nth1 xs i"
      using s less.prems by (simp add: nth1_swap1)
    have m: "length ?xs1 - s < length xs - i" using s by simp
    from less.hyps[OF m sh1 s(4)] s(2)
    obtain h' where h': "sift_down lt ?h1 (nth1 xs i) = Some h'" "heap_shape h' (fst (sift_down_l lt ?xs1 s))"
      "1 \<le> snd (sift_down_l lt ?xs1 s)" "snd (sift_down_l lt ?xs1 s) \<le> length xs"
      "nth1 (fst (sift_down_l lt ?xs1 s)) (snd (sift_down_l lt ?xs1 s)) = nth1 xs i"
      unfolding n1 by auto
    have l: "sift_down_l lt xs i = sift_down_l lt ?xs1 s"
      using False less.prems by (subst sift_down_l.simps) (simp add: s_def[symmetric])
    have "sift_down lt h (nth1 xs i) = Some h'"
      using ne h'(1) by (subst sift_down.simps) (simp add: sm)
    then show ?thesis using l h' by simp
  qed
qed

lemma heap_remove_shape:
  assumes sh: "heap_shape h xs" and j: "1 \<le> j" "j \<le> length xs"
  shows "\<exists>h'. heap_remove lt h (nth1 xs j) = Some h' \<and> heap_shape h' (remove_l lt xs j)"
proof -
  define n where "n = length xs"
  have d: "distinct xs" using sh by (simp add: heap_shape_def)
  have n: "1 \<le> n" "n < 2 ^ 32" "nelts h = of_nat n" using sh j by (simp_all add: heap_shape_def n_def)
  have nz: "nelts h \<noteq> 0" unfolding n(3) using n(1,2) by (intro of_nat_neq_0) simp_all
  have w: "(case heap_path 0 0 (nelts h) of (path, k) \<Rightarrow> remove_walk h Min_loc path k)
       = Some (loc_of xs n)"
  proof -
    have "(case heap_path 0 0 (nelts h) of (path, k) \<Rightarrow> insert_walk h Min_loc Min_loc path k)
       = Some (loc_of xs (n div 2), loc_of xs n)"
      unfolding n(3) heap_path_walk[OF n(2)]
      by (intro walk_list_shape[OF sh n(1)]) (simp add: n_def)
    then show ?thesis
      by (auto simp: remove_walk_insert_walk[of h Min_loc _ _ Min_loc] split: prod.splits)
  qed
  define lst where "lst = nth1 xs n"
  define h2 where "h2 = store (h\<lparr>nelts := nelts h - 1\<rparr>) (loc_of xs n) None"
  have ld: "load (h\<lparr>nelts := nelts h - 1\<rparr>) (loc_of xs n) = Some lst"
  proof -
    have "load (h\<lparr>nelts := nelts h - 1\<rparr>) (loc_of xs n) = load h (loc_of xs n)"
      by (cases "loc_of xs n") simp_all
    moreover have "lk xs n = Some (nth1 xs n)" using n(1) by (simp add: lk_in n_def)
    ultimately show ?thesis using load_loc_of[OF sh n(1)] by (simp add: n_def lst_def)
  qed
  have sh2: "heap_shape h2 (butlast xs)"
    unfolding h2_def using shape_butlast[OF sh n_def n(1)] .
  have unf: "heap_remove lt h node =
      (if lst = node then (if Some lst = min_h h2 then Some (h2\<lparr>min_h := None\<rparr>) else Some h2)
       else (case sift_down lt (remove_splice h2 node lst) lst of
               None \<Rightarrow> None
             | Some h3 \<Rightarrow> sift_up lt h3 lst))" for node
  proof -
    obtain path k where pk: "heap_path 0 0 (nelts h) = (path, k)" by force
    have rw: "remove_walk h Min_loc path k = Some (loc_of xs n)" using w pk by simp
    show ?thesis
      unfolding heap_remove_def Let_def pk prod.case rw option.case ld h2_def[symmetric]
      using nz by simp
  qed
  show ?thesis
  proof (cases "j = n")
    case True
    have "min_h h2 = lk (butlast xs) 1" using sh2 by (simp add: heap_shape_def)
    moreover have "lk (butlast xs) 1 \<noteq> Some lst"
      using nth1_eq_iff[OF d, of 1 n] n(1) by (auto simp: lk_def nth1_butlast n_def lst_def)
    ultimately have "Some lst \<noteq> min_h h2" by simp
    then have "heap_remove lt h (nth1 xs j) = Some h2"
      unfolding unf using True by (simp add: lst_def)
    moreover have "remove_l lt xs j = butlast xs"
      using True by (simp add: remove_l_def n_def)
    ultimately show ?thesis using sh2 by simp
  next
    case False
    then have jn: "j < n" "j \<le> length (butlast xs)" using j by (simp_all add: n_def)
    have ne: "lst \<noteq> nth1 xs j"
      using nth1_eq_iff[OF d n(1) _ j] False by (simp add: n_def lst_def)
    have nb: "nth1 (butlast xs) j = nth1 xs j" using j jn by (simp add: nth1_butlast n_def)
    have new: "lst \<notin> set (butlast xs)"
      using d n(1) unfolding lst_def n_def nth1_def
      by (metis One_nat_def append_butlast_last_id distinct_butlast last_conv_nth length_0_conv not_distinct_conv_prefix not_one_le_zero distinct_append disjoint_iff list.set_intros(1) set_append empty_iff list.simps(15) insert_iff UnCI)
    obtain q where q: "j = 2 * q \<or> j = Suc (2 * q)"
      by (metis even_two_times_div_two odd_two_times_div_two_succ Suc_eq_plus1)
    define ys where "ys = upd1 (butlast xs) j lst"
    have sh3: "heap_shape (remove_splice h2 (nth1 xs j) lst) ys"
      unfolding ys_def using splice_shape[OF sh2 j(1) jn(2) new q] by (simp add: nb)
    have jy: "j \<le> length ys" "nth1 ys j = lst" using jn j by (simp_all add: ys_def nth1_upd1_same)
    from sift_down_shape[OF sh3 j(1) jy(1), of lt]
    obtain h3 where h3: "sift_down lt (remove_splice h2 (nth1 xs j) lst) lst = Some h3"
      "heap_shape h3 (fst (sift_down_l lt ys j))"
      "1 \<le> snd (sift_down_l lt ys j)" "snd (sift_down_l lt ys j) \<le> length ys"
      "nth1 (fst (sift_down_l lt ys j)) (snd (sift_down_l lt ys j)) = lst"
      unfolding jy(2) by auto
    define zs where "zs = fst (sift_down_l lt ys j)"
    define k where "k = snd (sift_down_l lt ys j)"
    have lz: "length zs = length ys"
      unfolding zs_def using sift_down_l_length_set[OF j(1) jy(1)] by simp
    from sift_up_shape[OF h3(2) h3(3), of lt] h3(4) lz
    obtain h' where h': "sift_up lt h3 lst = Some h'" "heap_shape h' (sift_up_l lt zs k)"
      unfolding h3(5) zs_def k_def by auto
    have "heap_remove lt h (nth1 xs j) = Some h'"
      unfolding unf using ne h3(1) h'(1) by simp
    moreover have "remove_l lt xs j = sift_up_l lt zs k"
      using False by (simp add: remove_l_def n_def[symmetric] lst_def[symmetric] ys_def[symmetric]
          zs_def k_def Let_def split: prod.splits)
    ultimately show ?thesis using h'(2) by simp
  qed
qed

section \<open>Heap order\<close>

lemma swo_irrefl: "strict_weak_order lt \<Longrightarrow> \<not> lt a a"
  by (simp add: strict_weak_order_def)

lemma swo_trans: "strict_weak_order lt \<Longrightarrow> lt a b \<Longrightarrow> lt b c \<Longrightarrow> lt a c"
  unfolding strict_weak_order_def by blast

lemma swo_asym: "strict_weak_order lt \<Longrightarrow> lt a b \<Longrightarrow> \<not> lt b a"
  using swo_irrefl swo_trans by blast

lemma swo_negtrans:
  assumes "strict_weak_order lt" "\<not> lt a b" "\<not> lt b c"
  shows "\<not> lt a c"
proof
  assume ac: "lt a c"
  have ba: "\<not> lt b a" using swo_trans[OF assms(1), of b a c] ac assms(3) by blast
  have cb: "\<not> lt c b" using swo_trans[OF assms(1), of a c b] ac assms(2) by blast
  have "\<not> lt a c \<and> \<not> lt c a"
    using assms ba cb unfolding strict_weak_order_def by blast
  then show False using ac by simp
qed

text \<open>\<not> lt b a reads "a precedes b or ties with it"; it is transitive\<close>

lemma le_trans: "strict_weak_order lt \<Longrightarrow> \<not> lt b a \<Longrightarrow> \<not> lt c b \<Longrightarrow> \<not> lt c a"
  using swo_negtrans by blast

lemma lt_le_trans: "strict_weak_order lt \<Longrightarrow> lt a b \<Longrightarrow> \<not> lt c b \<Longrightarrow> \<not> lt c a"
  using swo_negtrans swo_asym by blast

lemma precedes_iff: "strict_weak_order lt \<Longrightarrow> precedes lt a b \<longleftrightarrow> \<not> lt b a"
  unfolding precedes_def using swo_asym by blast

lemma heap_ordered_iff:
  assumes "strict_weak_order lt"
  shows "heap_ordered lt xs \<longleftrightarrow>
    (\<forall>p k. 1 \<le> p \<longrightarrow> k = 2 * p \<or> k = Suc (2 * p) \<longrightarrow> k \<le> length xs \<longrightarrow> \<not> lt (nth1 xs k) (nth1 xs p))"
    (is "?L \<longleftrightarrow> ?R")
proof
  assume L: ?L
  show ?R
  proof (intro allI impI)
    fix p k :: nat assume p: "1 \<le> p" "k = 2 * p \<or> k = Suc (2 * p)" "k \<le> length xs"
    then have "k \<in> {2..length xs}" "k div 2 = p" by auto
    then show "\<not> lt (nth1 xs k) (nth1 xs p)"
      using L precedes_iff[OF assms] unfolding heap_ordered_def by blast
  qed
next
  assume R: ?R
  show ?L unfolding heap_ordered_def
  proof
    fix i assume i: "i \<in> {2..length xs}"
    then have "1 \<le> i div 2" "i = 2 * (i div 2) \<or> i = Suc (2 * (i div 2))" "i \<le> length xs" by auto
    then show "precedes lt (nth1 xs (i div 2)) (nth1 xs i)"
      using R precedes_iff[OF assms] by blast
  qed
qed

lemma ordered_imp_but_up:
  assumes "strict_weak_order lt" "heap_ordered lt xs"
  shows "ordered_but_up lt xs i"
  unfolding ordered_but_up_def
proof (intro conjI allI impI)
  note R = assms(2)[unfolded heap_ordered_iff[OF assms(1)], rule_format]
  fix p k :: nat assume "1 \<le> p" "k = 2 * p \<or> k = Suc (2 * p)" "k \<le> length xs"
  then show "\<not> lt (nth1 xs k) (nth1 xs p)" by (rule R)
next
  note R = assms(2)[unfolded heap_ordered_iff[OF assms(1)], rule_format]
  fix g k :: nat assume g: "1 \<le> g" "i = 2 * g \<or> i = Suc (2 * g)" "k = 2 * i \<or> k = Suc (2 * i)" "k \<le> length xs"
  then have i: "1 \<le> i" "i \<le> length xs" by auto
  have "\<not> lt (nth1 xs i) (nth1 xs g)" using R[OF g(1,2) i(2)] .
  moreover have "\<not> lt (nth1 xs k) (nth1 xs i)" using R[OF i(1) g(3,4)] .
  ultimately show "\<not> lt (nth1 xs k) (nth1 xs g)" by (rule le_trans[OF assms(1)])
qed

lemma parent_unique:
  fixes k p p' :: nat
  shows "k = 2 * p \<or> k = Suc (2 * p) \<Longrightarrow> k = 2 * p' \<or> k = Suc (2 * p') \<Longrightarrow> p' = p"
  by arith

lemma but_up_step:
  assumes swo: "strict_weak_order lt" and U: "ordered_but_up lt xs i"
    and i: "i \<le> length xs" "1 \<le> p" "i = 2 * p \<or> i = Suc (2 * p)"
    and lt: "lt (nth1 xs i) (nth1 xs p)"
  shows "ordered_but_up lt (swap1 xs p i) p"
proof -
  let ?xs' = "swap1 xs p i"
  have pi: "p \<le> length xs" "1 \<le> i" "p \<noteq> i" using i by auto
  note U1 = U[unfolded ordered_but_up_def, THEN conjunct1, rule_format]
  note U2 = U[unfolded ordered_but_up_def, THEN conjunct2, rule_format]
  have nth': "nth1 ?xs' k = (if k = i then nth1 xs p else if k = p then nth1 xs i else nth1 xs k)"
    if "1 \<le> k" for k
    using nth1_swap1[OF i(2) pi(1) pi(2) i(1) that] by simp
  have ni: "nth1 ?xs' i = nth1 xs p" and np: "nth1 ?xs' p = nth1 xs i"
    using nth'[OF pi(2)] nth'[OF i(2)] pi(3) by simp_all
  have no: "nth1 ?xs' k = nth1 xs k" if "1 \<le> k" "k \<noteq> i" "k \<noteq> p" for k
    using nth'[OF that(1)] that(2,3) by simp
  show ?thesis
    unfolding ordered_but_up_def length_swap1
  proof (intro conjI allI impI)
    fix p' k :: nat
    assume a: "1 \<le> p'" "k = 2 * p' \<or> k = Suc (2 * p')" "k \<le> length xs" "k \<noteq> p"
    have k1: "1 \<le> k" using a by auto
    consider (top) "k = i" | (below) "p' = i" | (sib) "p' = p" "k \<noteq> i" | (far) "p' \<noteq> i" "p' \<noteq> p" "k \<noteq> i"
      by blast
    then show "\<not> lt (nth1 ?xs' k) (nth1 ?xs' p')"
    proof cases
      case top
      then have "p' = p" using a(2) i(3) by (auto dest: parent_unique)
      then show ?thesis using top swo_asym[OF swo lt] by (simp add: ni np)
    next
      case below
      have "k \<noteq> i" "k \<noteq> p" using below a i by auto
      moreover have "\<not> lt (nth1 xs k) (nth1 xs p)"
        using U2[OF i(2,3) _ a(3)] a(2) below by simp
      ultimately show ?thesis using below k1 by (simp add: ni no)
    next
      case sib
      have "\<not> lt (nth1 xs k) (nth1 xs p)"
        using U1[OF i(2) _ a(3) sib(2)] a(2) sib(1) by simp
      then have "\<not> lt (nth1 xs k) (nth1 xs i)" by (rule lt_le_trans[OF swo lt])
      then show ?thesis using sib a(4) k1 by (simp add: np no)
    next
      case far
      have "\<not> lt (nth1 xs k) (nth1 xs p')" using U1[OF a(1,2,3) far(3)] .
      then show ?thesis using far a(1,4) k1 by (simp add: no)
    qed
  next
    fix g k :: nat
    assume a: "1 \<le> g" "p = 2 * g \<or> p = Suc (2 * g)" "k = 2 * p \<or> k = Suc (2 * p)" "k \<le> length xs"
    have k1: "1 \<le> k" using a by auto
    have g: "g \<noteq> p" "g \<noteq> i" "k \<noteq> p" using a i by auto
    have gp: "\<not> lt (nth1 xs p) (nth1 xs g)"
      using U1[OF a(1,2) pi(1) pi(3)] .
    show "\<not> lt (nth1 ?xs' k) (nth1 ?xs' g)"
    proof (cases "k = i")
      case True
      then show ?thesis using g gp a(1) by (simp add: ni no)
    next
      case False
      have "\<not> lt (nth1 xs k) (nth1 xs p)" using U1[OF i(2) a(3,4) False] .
      with gp have "\<not> lt (nth1 xs k) (nth1 xs g)" by (rule le_trans[OF swo])
      then show ?thesis using g False a(1) k1 by (simp add: no)
    qed
  qed
qed

lemma sift_up_l_ordered:
  assumes swo: "strict_weak_order lt"
  shows "ordered_but_up lt xs i \<Longrightarrow> 1 \<le> i \<Longrightarrow> i \<le> length xs \<Longrightarrow> heap_ordered lt (sift_up_l lt xs i)"
proof (induction i arbitrary: xs rule: less_induct)
  case (less i)
  define p where "p = i div 2"
  have p: "i = 2 * p \<or> i = Suc (2 * p)" by (auto simp: p_def)
  note U1 = less.prems(1)[unfolded ordered_but_up_def, THEN conjunct1, rule_format]
  show ?case
  proof (cases "2 \<le> i \<and> lt (nth1 xs i) (nth1 xs p)")
    case True
    then have p1: "1 \<le> p" "p < i" "p \<le> length xs" using less.prems by (auto simp: p_def)
    have l: "sift_up_l lt xs i = sift_up_l lt (swap1 xs p i) p"
      using True less.prems by (subst sift_up_l.simps) (simp add: p_def)
    have "ordered_but_up lt (swap1 xs p i) p"
      using but_up_step[OF swo less.prems(1) less.prems(3) p1(1) p] True by simp
    from less.IH[OF p1(2) this p1(1)] p1(3) show ?thesis by (simp add: l)
  next
    case False
    have l: "sift_up_l lt xs i = xs"
      using False by (subst sift_up_l.simps) (auto simp: p_def)
    have "heap_ordered lt xs"
      unfolding heap_ordered_iff[OF swo]
    proof (intro allI impI)
      fix p' k :: nat assume a: "1 \<le> p'" "k = 2 * p' \<or> k = Suc (2 * p')" "k \<le> length xs"
      show "\<not> lt (nth1 xs k) (nth1 xs p')"
      proof (cases "k = i")
        case True
        then have "p' = p" using a(2) p by (auto dest: parent_unique)
        moreover have "2 \<le> i" using a True by auto
        ultimately show ?thesis using False True by simp
      next
        case False
        then show ?thesis using U1[OF a] by simp
      qed
    qed
    then show ?thesis by (simp add: l)
  qed
qed

lemma smallest_l_props:
  assumes swo: "strict_weak_order lt" and s: "s = smallest_l lt xs i"
  shows "s \<noteq> i \<Longrightarrow> lt (nth1 xs s) (nth1 xs i)"
    and "k = 2 * i \<or> k = Suc (2 * i) \<Longrightarrow> k \<le> length xs \<Longrightarrow> \<not> lt (nth1 xs k) (nth1 xs s)"
proof -
  let ?a = "nth1 xs (2 * i)" and ?b = "nth1 xs (Suc (2 * i))" and ?x = "nth1 xs i"
  define s1 where "s1 = (if 2 * i \<le> length xs \<and> lt ?a ?x then 2 * i else i)"
  have s2: "s = (if Suc (2 * i) \<le> length xs \<and> lt ?b (nth1 xs s1) then Suc (2 * i) else s1)"
    unfolding s smallest_l_def Let_def s1_def by simp
  have s1x: "s1 \<noteq> i \<Longrightarrow> lt (nth1 xs s1) ?x"
    unfolding s1_def by (auto split: if_splits)
  show lt: "lt (nth1 xs s) ?x" if "s \<noteq> i"
  proof (cases "s = s1")
    case True
    then show ?thesis using s1x that by simp
  next
    case False
    then have b: "s = Suc (2 * i)" "lt ?b (nth1 xs s1)" using s2 by (auto split: if_splits)
    show ?thesis
    proof (cases "s1 = i")
      case True
      then show ?thesis using b by simp
    next
      case False
      from swo_trans[OF swo b(2) s1x[OF False]] b(1) show ?thesis by simp
    qed
  qed
  show "\<not> lt (nth1 xs k) (nth1 xs s)" if k: "k = 2 * i \<or> k = Suc (2 * i)" "k \<le> length xs"
  proof -
    have a1: "\<not> lt ?a (nth1 xs s1)" if "2 * i \<le> length xs"
      using that swo_irrefl[OF swo] unfolding s1_def by auto
    have b1: "\<not> lt ?b (nth1 xs s)" if "Suc (2 * i) \<le> length xs"
      using that swo_irrefl[OF swo] unfolding s2 by auto
    have a2: "\<not> lt ?a (nth1 xs s)" if "2 * i \<le> length xs"
    proof (cases "s = s1")
      case True
      then show ?thesis using a1[OF that] by simp
    next
      case False
      then have b: "s = Suc (2 * i)" "lt ?b (nth1 xs s1)" using s2 by (auto split: if_splits)
      from lt_le_trans[OF swo b(2) a1[OF that]] b(1) show ?thesis by simp
    qed
    from k(1) show ?thesis
    proof
      assume "k = 2 * i" then show ?thesis using a2 k(2) by simp
    next
      assume "k = Suc (2 * i)" then show ?thesis using b1 k(2) by simp
    qed
  qed
qed

lemma but_at_step:
  assumes swo: "strict_weak_order lt" and D: "ordered_but_at lt xs i"
    and i: "1 \<le> i" "s \<le> length xs" "s = 2 * i \<or> s = Suc (2 * i)"
    and lt: "lt (nth1 xs s) (nth1 xs i)"
    and sib: "\<And>k. k = 2 * i \<or> k = Suc (2 * i) \<Longrightarrow> k \<le> length xs \<Longrightarrow> \<not> lt (nth1 xs k) (nth1 xs s)"
  shows "ordered_but_at lt (swap1 xs i s) s"
proof -
  let ?xs' = "swap1 xs i s"
  have si: "i \<le> length xs" "1 \<le> s" "i \<noteq> s" using i by auto
  note D1 = D[unfolded ordered_but_at_def, THEN conjunct1, rule_format]
  note D2 = D[unfolded ordered_but_at_def, THEN conjunct2, rule_format]
  have nth': "nth1 ?xs' k = (if k = s then nth1 xs i else if k = i then nth1 xs s else nth1 xs k)"
    if "1 \<le> k" for k
    using nth1_swap1[OF i(1) si(1) si(2) i(2) that] by simp
  have ns: "nth1 ?xs' s = nth1 xs i" and ni: "nth1 ?xs' i = nth1 xs s"
    using nth'[OF si(2)] nth'[OF i(1)] si(3) by simp_all
  have no: "nth1 ?xs' k = nth1 xs k" if "1 \<le> k" "k \<noteq> i" "k \<noteq> s" for k
    using nth'[OF that(1)] that(2,3) by simp
  show ?thesis
    unfolding ordered_but_at_def length_swap1
  proof (intro conjI allI impI)
    fix p k :: nat
    assume a: "1 \<le> p" "k = 2 * p \<or> k = Suc (2 * p)" "k \<le> length xs" "k \<noteq> s" "p \<noteq> s"
    have k1: "1 \<le> k" using a by auto
    consider (top) "k = i" | (sib) "p = i" | (far) "p \<noteq> i" "k \<noteq> i" by blast
    then show "\<not> lt (nth1 ?xs' k) (nth1 ?xs' p)"
    proof cases
      case top
      have ps: "p \<noteq> i" "p \<noteq> s" using top a i by auto
      have "\<not> lt (nth1 xs s) (nth1 xs p)"
        using D2[OF a(1) _ i(3) i(2)] a(2) top by simp
      then show ?thesis using top ps a(1) by (simp add: ni no)
    next
      case sib
      have "\<not> lt (nth1 xs k) (nth1 xs s)" using sib a by (intro assms(7)) auto
      moreover have "k \<noteq> i" using sib a by auto
      ultimately show ?thesis using sib a(4) k1 by (simp add: ni no)
    next
      case far
      have "\<not> lt (nth1 xs k) (nth1 xs p)" using D1[OF a(1,2,3) far(2,1)] .
      then show ?thesis using far a(1,4,5) k1 by (simp add: no)
    qed
  next
    fix g k :: nat
    assume a: "1 \<le> g" "s = 2 * g \<or> s = Suc (2 * g)" "k = 2 * s \<or> k = Suc (2 * s)" "k \<le> length xs"
    have gi: "g = i" using a(2) i(3) by (auto dest: parent_unique)
    have k: "1 \<le> k" "k \<noteq> i" "k \<noteq> s" using a i by auto
    have "\<not> lt (nth1 xs k) (nth1 xs s)"
      using D1[OF si(2) a(3,4) k(2) si(3)[symmetric]] .
    then show "\<not> lt (nth1 ?xs' k) (nth1 ?xs' g)" using gi k by (simp add: ni no)
  qed
qed

lemma sift_down_l_props:
  assumes swo: "strict_weak_order lt"
  shows "ordered_but_at lt xs i \<Longrightarrow> 1 \<le> i \<Longrightarrow> i \<le> length xs \<Longrightarrow>
    ordered_but_up lt (fst (sift_down_l lt xs i)) (snd (sift_down_l lt xs i))"
proof (induction "length xs - i" arbitrary: xs i rule: less_induct)
  case less
  define s where "s = smallest_l lt xs i"
  note sp = smallest_l_props[OF swo s_def]
  have sc: "s = i \<or> (s = 2 * i \<and> 2 * i \<le> length xs) \<or> (s = Suc (2 * i) \<and> Suc (2 * i) \<le> length xs)"
    unfolding s_def by (rule smallest_l_cases)
  note D1 = less.prems(1)[unfolded ordered_but_at_def, THEN conjunct1, rule_format]
  note D2 = less.prems(1)[unfolded ordered_but_at_def, THEN conjunct2, rule_format]
  show ?case
  proof (cases "s = i")
    case True
    have l: "sift_down_l lt xs i = (xs, i)"
      using True by (subst sift_down_l.simps) (simp add: s_def[symmetric])
    have "ordered_but_up lt xs i"
      unfolding ordered_but_up_def
    proof (intro conjI allI impI)
      fix p k :: nat
      assume a: "1 \<le> p" "k = 2 * p \<or> k = Suc (2 * p)" "k \<le> length xs" "k \<noteq> i"
      show "\<not> lt (nth1 xs k) (nth1 xs p)"
      proof (cases "p = i")
        case True
        then show ?thesis using sp(2)[of k] a \<open>s = i\<close> by simp
      next
        case False
        show ?thesis using D1[OF a False] .
      qed
    next
      fix g k :: nat
      assume "1 \<le> g" "i = 2 * g \<or> i = Suc (2 * g)" "k = 2 * i \<or> k = Suc (2 * i)" "k \<le> length xs"
      then show "\<not> lt (nth1 xs k) (nth1 xs g)" by (rule D2)
    qed
    then show ?thesis by (simp add: l)
  next
    case False
    then have s: "s = 2 * i \<or> s = Suc (2 * i)" "s \<le> length xs" "i < s" "1 \<le> s" using sc less.prems by auto
    have l: "sift_down_l lt xs i = sift_down_l lt (swap1 xs i s) s"
      using False less.prems by (subst sift_down_l.simps) (simp add: s_def[symmetric])
    have D': "ordered_but_at lt (swap1 xs i s) s"
      using but_at_step[OF swo less.prems(1) less.prems(2) s(2) s(1) sp(1)[OF False]] sp(2) by blast
    have m: "length (swap1 xs i s) - s < length xs - i" using s by simp
    from less.hyps[OF m D' s(4)] s(2) show ?thesis by (simp add: l)
  qed
qed


section \<open>Reachable nodes, the minimum, and the two operations on an ordered heap\<close>

lemma lk_SomeD: "lk xs j = Some a \<Longrightarrow> 1 \<le> j \<and> j \<le> length xs \<and> a = nth1 xs j"
  by (auto simp: lk_def split: if_splits)

lemma in_set_nth1: "a \<in> set xs \<Longrightarrow> \<exists>i. 1 \<le> i \<and> i \<le> length xs \<and> a = nth1 xs i"
  unfolding nth1_def in_set_conv_nth by (metis Suc_leI diff_Suc_1 le_add1 plus_1_eq_Suc)

lemma reach_shape:
  assumes sh: "heap_shape h xs"
  shows "reach h = set xs"
proof (intro equalityI subsetI)
  fix a assume "a \<in> reach h"
  then have "\<exists>i. 1 \<le> i \<and> i \<le> length xs \<and> a = nth1 xs i"
  proof (induction rule: reach.induct)
    case (reach_min a)
    then have "lk xs 1 = Some a" using sh by (simp add: heap_shape_def)
    from lk_SomeD[OF this] show ?case by blast
  next
    case (reach_left a b)
    then obtain i where i: "1 \<le> i" "i \<le> length xs" "a = nth1 xs i" by blast
    have "lk xs (2 * i) = Some b" using heap_shape_mem[OF sh i(1,2)] reach_left(2) i(3) by simp
    from lk_SomeD[OF this] show ?case by blast
  next
    case (reach_right a b)
    then obtain i where i: "1 \<le> i" "i \<le> length xs" "a = nth1 xs i" by blast
    have "lk xs (Suc (2 * i)) = Some b" using heap_shape_mem[OF sh i(1,2)] reach_right(2) i(3) by simp
    from lk_SomeD[OF this] show ?case by blast
  qed
  then show "a \<in> set xs" by (auto simp: nth1_mem)
next
  fix a assume "a \<in> set xs"
  from in_set_nth1[OF this]
  obtain i where i: "1 \<le> i" "i \<le> length xs" "a = nth1 xs i" by blast
  have "1 \<le> i \<Longrightarrow> i \<le> length xs \<Longrightarrow> nth1 xs i \<in> reach h" for i
  proof (induction i rule: less_induct)
    case (less i)
    show ?case
    proof (cases "i = 1")
      case True
      then have "min_h h = Some (nth1 xs i)" using sh less.prems by (simp add: heap_shape_def lk_in)
      then show ?thesis by (rule reach_min)
    next
      case False
      define p where "p = i div 2"
      have p: "1 \<le> p" "p < i" "p \<le> length xs" "i = 2 * p \<or> i = Suc (2 * p)"
        using False less.prems by (auto simp: p_def)
      have pr: "nth1 xs p \<in> reach h" using less.IH[OF p(2,1,3)] .
      note mp = heap_shape_mem[OF sh p(1,3)]
      have li: "lk xs i = Some (nth1 xs i)" using less.prems by (simp add: lk_in)
      from p(4) show ?thesis
      proof
        assume "i = 2 * p"
        then have "left (mem h (nth1 xs p)) = Some (nth1 xs i)" using mp li by simp
        with pr show ?thesis by (rule reach_left)
      next
        assume "i = Suc (2 * p)"
        then have "right (mem h (nth1 xs p)) = Some (nth1 xs i)" using mp li by simp
        with pr show ?thesis by (rule reach_right)
      qed
    qed
  qed
  then show "a \<in> reach h" using i by simp
qed

lemma root_least:
  assumes swo: "strict_weak_order lt" and ho: "heap_ordered lt xs"
  shows "1 \<le> i \<Longrightarrow> i \<le> length xs \<Longrightarrow> \<not> lt (nth1 xs i) (nth1 xs 1)"
proof (induction i rule: less_induct)
  case (less i)
  note R = ho[unfolded heap_ordered_iff[OF swo], rule_format]
  show ?case
  proof (cases "i = 1")
    case True
    then show ?thesis using swo_irrefl[OF swo] by simp
  next
    case False
    define p where "p = i div 2"
    have p: "1 \<le> p" "p < i" "p \<le> length xs" "i = 2 * p \<or> i = Suc (2 * p)"
      using False less.prems by (auto simp: p_def)
    have "\<not> lt (nth1 xs p) (nth1 xs 1)" using less.IH[OF p(2,1,3)] .
    moreover have "\<not> lt (nth1 xs i) (nth1 xs p)" using R[OF p(1,4) less.prems(2)] .
    ultimately show ?thesis by (rule le_trans[OF swo])
  qed
qed

lemma ordered_append_but_up:
  assumes swo: "strict_weak_order lt" and ho: "heap_ordered lt xs"
  shows "ordered_but_up lt (xs @ [x]) (Suc (length xs))"
  unfolding ordered_but_up_def
proof (intro conjI allI impI)
  note R = ho[unfolded heap_ordered_iff[OF swo], rule_format]
  fix p k :: nat
  assume a: "1 \<le> p" "k = 2 * p \<or> k = Suc (2 * p)" "k \<le> length (xs @ [x])" "k \<noteq> Suc (length xs)"
  then have k: "k \<le> length xs" "1 \<le> k" "p \<le> length xs" by auto
  have "nth1 (xs @ [x]) k = nth1 xs k" "nth1 (xs @ [x]) p = nth1 xs p"
    using k a by (simp_all add: nth1_append)
  then show "\<not> lt (nth1 (xs @ [x]) k) (nth1 (xs @ [x]) p)" using R[OF a(1,2) k(1)] by simp
next
  fix g k :: nat
  assume "k = 2 * Suc (length xs) \<or> k = Suc (2 * Suc (length xs))" "k \<le> length (xs @ [x])"
  then have False by auto
  then show "\<not> lt (nth1 (xs @ [x]) k) (nth1 (xs @ [x]) g)" ..
qed

lemma ordered_butlast:
  assumes swo: "strict_weak_order lt" and ho: "heap_ordered lt xs"
  shows "heap_ordered lt (butlast xs)"
  unfolding heap_ordered_iff[OF swo]
proof (intro allI impI)
  note R = ho[unfolded heap_ordered_iff[OF swo], rule_format]
  fix p k :: nat
  assume a: "1 \<le> p" "k = 2 * p \<or> k = Suc (2 * p)" "k \<le> length (butlast xs)"
  then have k: "k < length xs" "1 \<le> k" "p < length xs" by auto
  have "nth1 (butlast xs) k = nth1 xs k" "nth1 (butlast xs) p = nth1 xs p"
    using k a by (simp_all add: nth1_butlast)
  then show "\<not> lt (nth1 (butlast xs) k) (nth1 (butlast xs) p)" using R[OF a(1,2)] k by simp
qed

lemma ordered_splice_but_at:
  assumes swo: "strict_weak_order lt" and ho: "heap_ordered lt xs" and j: "1 \<le> j" "j < length xs"
  shows "ordered_but_at lt (upd1 (butlast xs) j v) j"
  unfolding ordered_but_at_def
proof (intro conjI allI impI)
  note R = ho[unfolded heap_ordered_iff[OF swo], rule_format]
  have jb: "j \<le> length (butlast xs)" using j by simp
  {
    fix p k :: nat
    assume a: "1 \<le> p" "k = 2 * p \<or> k = Suc (2 * p)" "k \<le> length (upd1 (butlast xs) j v)" "k \<noteq> j" "p \<noteq> j"
    then have k: "k < length xs" "1 \<le> k" "p < length xs" by auto
    have "nth1 (upd1 (butlast xs) j v) k = nth1 xs k" "nth1 (upd1 (butlast xs) j v) p = nth1 xs p"
      using k a j by (simp_all add: nth1_upd1[OF j(1) jb] nth1_butlast)
    then show "\<not> lt (nth1 (upd1 (butlast xs) j v) k) (nth1 (upd1 (butlast xs) j v) p)"
      using R[OF a(1,2)] k by simp
  next
    fix g k :: nat
    assume a: "1 \<le> g" "j = 2 * g \<or> j = Suc (2 * g)" "k = 2 * j \<or> k = Suc (2 * j)" "k \<le> length (upd1 (butlast xs) j v)"
    then have k: "k < length xs" "1 \<le> k" "g < length xs" "k \<noteq> j" "g \<noteq> j" using j by auto
    have e: "nth1 (upd1 (butlast xs) j v) k = nth1 xs k" "nth1 (upd1 (butlast xs) j v) g = nth1 xs g"
      using k a j by (simp_all add: nth1_upd1[OF j(1) jb] nth1_butlast)
    have "\<not> lt (nth1 xs j) (nth1 xs g)" using R[OF a(1,2)] j by simp
    moreover have "\<not> lt (nth1 xs k) (nth1 xs j)" using R[OF j(1) a(3)] k by simp
    ultimately have "\<not> lt (nth1 xs k) (nth1 xs g)" by (rule le_trans[OF swo])
    then show "\<not> lt (nth1 (upd1 (butlast xs) j v) k) (nth1 (upd1 (butlast xs) j v) g)"
      using e by simp
  }
qed

lemma sift_down_l_pos:
  "1 \<le> i \<Longrightarrow> i \<le> length xs \<Longrightarrow>
   1 \<le> snd (sift_down_l lt xs i) \<and> snd (sift_down_l lt xs i) \<le> length xs \<and>
   nth1 (fst (sift_down_l lt xs i)) (snd (sift_down_l lt xs i)) = nth1 xs i"
proof (induction "length xs - i" arbitrary: xs i rule: less_induct)
  case less
  define s where "s = smallest_l lt xs i"
  have sc: "s = i \<or> (s = 2 * i \<and> 2 * i \<le> length xs) \<or> (s = Suc (2 * i) \<and> Suc (2 * i) \<le> length xs)"
    unfolding s_def by (rule smallest_l_cases)
  show ?case
  proof (cases "s = i")
    case True
    have "sift_down_l lt xs i = (xs, i)"
      using True by (subst sift_down_l.simps) (simp add: s_def[symmetric])
    then show ?thesis using less.prems by simp
  next
    case False
    then have s: "s \<le> length xs" "i < s" "1 \<le> s" using sc less.prems by auto
    have l: "sift_down_l lt xs i = sift_down_l lt (swap1 xs i s) s"
      using False less.prems by (subst sift_down_l.simps) (simp add: s_def[symmetric])
    have m: "length (swap1 xs i s) - s < length xs - i" using s by simp
    have n1: "nth1 (swap1 xs i s) s = nth1 xs i"
      using s less.prems by (simp add: nth1_swap1)
    from less.hyps[OF m s(3)] s(1) show ?thesis by (simp add: l n1)
  qed
qed

lemma sift_up_append_ordered:
  assumes swo: "strict_weak_order lt" and ho: "heap_ordered lt xs"
  shows "heap_ordered lt (sift_up_l lt (xs @ [x]) (Suc (length xs)))"
  using sift_up_l_ordered[OF swo ordered_append_but_up[OF swo ho, of x]] by simp

lemma remove_l_ordered:
  assumes swo: "strict_weak_order lt" and ho: "heap_ordered lt xs" and j: "1 \<le> j" "j \<le> length xs"
  shows "heap_ordered lt (remove_l lt xs j)"
proof (cases "j = length xs")
  case True
  then show ?thesis using ordered_butlast[OF swo ho] by (simp add: remove_l_def)
next
  case False
  then have jl: "j < length xs" using j by simp
  define ys where "ys = upd1 (butlast xs) j (nth1 xs (length xs))"
  have jy: "j \<le> length ys" using jl by (simp add: ys_def)
  have D: "ordered_but_at lt ys j"
    unfolding ys_def using ordered_splice_but_at[OF swo ho j(1) jl] .
  define zs where "zs = fst (sift_down_l lt ys j)"
  define k where "k = snd (sift_down_l lt ys j)"
  have U: "ordered_but_up lt zs k"
    unfolding zs_def k_def using sift_down_l_props[OF swo D j(1) jy] .
  have k: "1 \<le> k" "k \<le> length zs"
    unfolding zs_def k_def using sift_down_l_pos[OF j(1) jy, of lt] sift_down_l_length_set[OF j(1) jy, of lt]
    by simp_all
  have "heap_ordered lt (sift_up_l lt zs k)"
    using sift_up_l_ordered[OF swo U k] .
  moreover have "remove_l lt xs j = sift_up_l lt zs k"
    using False by (simp add: remove_l_def ys_def[symmetric] zs_def k_def Let_def split: prod.splits)
  ultimately show ?thesis by simp
qed

lemma remove_l_set:
  assumes d: "distinct xs" and j: "1 \<le> j" "j \<le> length xs"
  shows "set (remove_l lt xs j) = set xs - {nth1 xs j}"
proof -
  have ne: "xs \<noteq> []" using j by auto
  then have xs: "xs = butlast xs @ [last xs]" by simp
  have lst: "nth1 xs (length xs) = last xs" using ne by (simp add: nth1_def last_conv_nth)
  have dl: "last xs \<notin> set (butlast xs)" "distinct (butlast xs)"
    using d xs by (metis distinct_append distinct.simps(2) disjoint_iff list.set_intros(1) distinct_butlast not_distinct_conv_prefix)+
  have sb: "set xs = insert (last xs) (set (butlast xs))"
    using xs by (metis Un_insert_right append_Nil2 list.simps(15) set_append)
  show ?thesis
  proof (cases "j = length xs")
    case True
    then show ?thesis using dl sb lst by (auto simp: remove_l_def)
  next
    case False
    then have jl: "j < length xs" using j by simp
    define ys where "ys = upd1 (butlast xs) j (nth1 xs (length xs))"
    have jy: "j \<le> length ys" using jl by (simp add: ys_def)
    have nb: "butlast xs ! (j - 1) = nth1 xs j" using j jl by (simp add: nth1_def nth_butlast)
    have "set ys = insert (last xs) (set (butlast xs) - {nth1 xs j})"
      unfolding ys_def upd1_def lst using set_update_distinct[OF dl(2), of "j - 1" "last xs"] j jl nb
      by simp
    also have "\<dots> = set xs - {nth1 xs j}"
      using sb dl(1) nth1_eq_iff[OF d j, of "length xs"] j False lst by auto
    finally have sy: "set ys = set xs - {nth1 xs j}" .
    define zs where "zs = fst (sift_down_l lt ys j)"
    define k where "k = snd (sift_down_l lt ys j)"
    have "set zs = set ys" unfolding zs_def using sift_down_l_length_set[OF j(1) jy, of lt] by simp
    moreover have "remove_l lt xs j = sift_up_l lt zs k"
      using False by (simp add: remove_l_def ys_def[symmetric] zs_def k_def Let_def split: prod.splits)
    ultimately show ?thesis using sy by simp
  qed
qed

lemma heap_insert_correct:
  assumes swo: "strict_weak_order lt" and sh: "heap_shape h xs" and ho: "heap_ordered lt xs"
    and new: "x \<notin> set xs" and cap: "Suc (length xs) < 2 ^ 32"
  shows "\<exists>h'. heap_insert lt h x = Some h' \<and>
          heap_shape h' (sift_up_l lt (xs @ [x]) (Suc (length xs))) \<and>
          heap_ordered lt (sift_up_l lt (xs @ [x]) (Suc (length xs)))"
proof -
  from heap_insert_link[OF sh new cap, of lt]
  obtain h4 where h4: "heap_shape h4 (xs @ [x])" "heap_insert lt h x = sift_up lt h4 x" by blast
  have n: "nth1 (xs @ [x]) (Suc (length xs)) = x" by (simp add: nth1_append)
  from sift_up_shape[OF h4(1), of "Suc (length xs)" lt]
  obtain h' where "sift_up lt h4 x = Some h'" "heap_shape h' (sift_up_l lt (xs @ [x]) (Suc (length xs)))"
    unfolding n by auto
  then show ?thesis using h4(2) sift_up_append_ordered[OF swo ho] by auto
qed

section \<open>The timer comparator and the next timeout\<close>

lemma tlt_iff: "timer_less_than hs a b \<longleftrightarrow>
     timeout (hs a) < timeout (hs b) \<or>
     (timeout (hs a) = timeout (hs b) \<and> start_id (hs a) < start_id (hs b))"
  by (auto simp: timer_less_than_def Let_def)

text \<open>
  C5: \<open>timer_less_than\<close> holds exactly when the first deadline is smaller, or the deadlines
  are equal and the first start id is smaller.  It is irreflexive, asymmetric and transitive,
  it decides every two timers whose (timeout, start_id) pairs differ, and among timers with
  the same deadline the one started earlier comes first.
\<close>

theorem timer_less_than_order:
  "(timer_less_than hs a b \<longleftrightarrow>
     timeout (hs a) < timeout (hs b) \<or>
     (timeout (hs a) = timeout (hs b) \<and> start_id (hs a) < start_id (hs b))) \<and>
   \<not> timer_less_than hs a a \<and>
   (timer_less_than hs a b \<longrightarrow> \<not> timer_less_than hs b a) \<and>
   (timer_less_than hs a b \<and> timer_less_than hs b c \<longrightarrow> timer_less_than hs a c) \<and>
   ((timeout (hs a), start_id (hs a)) \<noteq> (timeout (hs b), start_id (hs b)) \<longrightarrow>
      timer_less_than hs a b \<or> timer_less_than hs b a) \<and>
   (timeout (hs a) = timeout (hs b) \<and> start_id (hs a) < start_id (hs b) \<longrightarrow>
      timer_less_than hs a b)"
  unfolding tlt_iff by auto

theorem timer_less_than_order_witness:
  "timer_less_than handles0 3 1 \<and> timer_less_than handles0 1 2 \<and> timer_less_than handles0 3 2 \<and>
   \<not> timer_less_than handles0 2 1 \<and> timeout (handles0 1) = timeout (handles0 2)"
proof -
  have a: "timer_less_than handles0 3 1"
    by (simp add: timer_less_than_def handles0_def)
  have b: "timeout (handles0 1) = timeout (handles0 2) \<and> start_id (handles0 1) < start_id (handles0 2)"
    by (simp add: handles0_def)
  from timer_less_than_order[of handles0 1 2] b have c: "timer_less_than handles0 1 2" by blast
  from timer_less_than_order[of handles0 3 1 2] a c have "timer_less_than handles0 3 2" by blast
  moreover from timer_less_than_order[of handles0 1 2] c have "\<not> timer_less_than handles0 2 1" by blast
  ultimately show ?thesis using a b c by blast
qed

lemma sint_ucast_small:
  fixes x :: "64 word"
  assumes "uint x \<le> 2147483647"
  shows "sint (ucast x :: 32 word) = uint x"
proof -
  have "sint (ucast x :: 32 word) = signed_take_bit 31 (uint x)"
    by (simp add: signed_ucast_eq)
  also have "\<dots> = uint x"
  proof (rule signed_take_bit_int_eq_self)
    have "0 \<le> uint x" by simp
    moreover have "- (2 ^ 31) \<le> (0::int)" by simp
    ultimately show "- (2 ^ 31) \<le> uint x" by (rule order_trans[rotated])
    show "uint x < 2 ^ 31" using assms by simp
  qed
  finally show ?thesis .
qed

text \<open>
  C8: \<open>uv__next_timeout\<close> returns -1 (block indefinitely) when the timer heap has no
  minimum, 0 when the minimum's deadline is not after \<open>loop.time\<close>, and otherwise the
  difference between the deadline and \<open>loop.time\<close> cut off at INT_MAX; for a heap with a
  minimum the result, read as a C int, lies between 0 and INT_MAX.
\<close>

theorem uv__next_timeout_spec:
  "(heap_min (timer_heap l) = None \<longrightarrow> uv__next_timeout l = - 1) \<and>
   (\<forall>handle. heap_min (timer_heap l) = Some handle \<longrightarrow>
      (timeout (handles l handle) \<le> time l \<longrightarrow> uv__next_timeout l = 0) \<and>
      (time l < timeout (handles l handle) \<longrightarrow>
         sint (uv__next_timeout l) =
           min (uint (timeout (handles l handle)) - uint (time l)) (uint INT_MAX)) \<and>
      0 \<le> sint (uv__next_timeout l) \<and> sint (uv__next_timeout l) \<le> uint INT_MAX)"
proof (intro conjI allI impI)
  show "uv__next_timeout l = - 1" if "heap_min (timer_heap l) = None"
    using that by (simp add: uv__next_timeout_def)
next
  fix handle assume m: "heap_min (timer_heap l) = Some handle"
  let ?t = "timeout (handles l handle)"
  show z: "uv__next_timeout l = 0" if "?t \<le> time l"
    using that m by (simp add: uv__next_timeout_def)
  have cl: "sint (uv__next_timeout l) = min (uint ?t - uint (time l)) (uint INT_MAX)" if lt: "time l < ?t"
  proof -
    have d: "uint (?t - time l) = uint ?t - uint (time l)"
      using lt by (simp add: uint_sub_if' word_less_def word_le_def)
    define diff where "diff = (if INT_MAX < ?t - time l then INT_MAX else ?t - time l)"
    have r: "uv__next_timeout l = ucast diff"
      using lt m by (simp add: uv__next_timeout_def Let_def diff_def not_le[symmetric])
    have dv: "uint diff = min (uint ?t - uint (time l)) (uint INT_MAX)"
      using d by (auto simp: diff_def word_less_def min_def)
    have db: "uint diff \<le> 2147483647"
      unfolding dv by (simp add: INT_MAX_def)
    have "sint (ucast diff :: 32 word) = uint diff"
      using db by (rule sint_ucast_small)
    then show ?thesis using r dv by simp
  qed
  then show "time l < ?t \<Longrightarrow> sint (uv__next_timeout l) = min (uint ?t - uint (time l)) (uint INT_MAX)" .
  have "0 \<le> sint (uv__next_timeout l) \<and> sint (uv__next_timeout l) \<le> uint INT_MAX"
  proof (cases "?t \<le> time l")
    case True
    then show ?thesis using z by (simp add: INT_MAX_def)
  next
    case False
    then have lt: "time l < ?t" by simp
    then have "uint (time l) < uint ?t" by (simp add: word_less_def)
    then show ?thesis using cl[OF lt] by (simp add: INT_MAX_def)
  qed
  then show "0 \<le> sint (uv__next_timeout l)" "sint (uv__next_timeout l) \<le> uint INT_MAX"
    by simp_all
qed

theorem uv__next_timeout_spec_witness:
  "heap_min (timer_heap loop_far) = Some 1 \<and>
   time loop_far < timeout (handles loop_far 1) \<and>
   sint (uv__next_timeout loop_far) = 2147483647"
proof -
  have m: "heap_min (timer_heap loop_far) = Some 1"
    by (simp add: loop_far_def heap_min_def)
  have lt: "time loop_far < timeout (handles loop_far 1)"
    by (simp add: loop_far_def)
  from uv__next_timeout_spec[of loop_far] m lt
  have "sint (uv__next_timeout loop_far) =
      min (uint (timeout (handles loop_far 1)) - uint (time loop_far)) (uint INT_MAX)"
    by blast
  also have "\<dots> = 2147483647"
    by (simp add: loop_far_def INT_MAX_def)
  finally show ?thesis using m lt by simp
qed

end
